theory Spec2Isabelle
  imports Main "HOL-Library.AList" "HOL-Library.Word"
begin

section \<open>Data model of resumableService.ts\<close>

text \<open>
  Sizes, offsets and part numbers of the upload path are JavaScript numbers that are
  never negative there (they come from \<open>file.size\<close>, from \<open>partNumber - 1\<close> with
  \<open>partNumber \<ge> 1\<close> and from \<open>chunk.size\<close>), so they are naturals.  The download path
  computes \<open>totalSize - 1\<close> and \<open>end - start + 1\<close> on stored numbers and uses integers.
\<close>

type_synonym byte = "8 word"

text \<open>A browser \<open>File\<close>: \<open>file.size\<close> is the length of its content.\<close>

record File =
  name :: string
  ftype :: string
  lastModified :: int
  bytes :: "byte list"

definition fsize :: "File \<Rightarrow> nat" where
  "fsize f = length (bytes f)"

text \<open>\<open>Blob.slice(start, end)\<close> for non-negative arguments: both are clamped to the size.\<close>

definition slice :: "nat \<Rightarrow> nat \<Rightarrow> byte list \<Rightarrow> byte list" where
  "slice s e bs = take (e - s) (drop s bs)"

record PartInfo =
  etag :: string
  psize :: nat

text \<open>
  \<open>interface ChunkProgress\<close>.  \<open>parts\<close> is the object keyed by part number, kept as an
  association list so that \<open>Object.keys\<close> can be enumerated.
\<close>

record ChunkProgress =
  uploadId :: nat
  parts :: "(nat \<times> PartInfo) list"
  totalSize :: nat
  uploadedSize :: nat
  fileName :: string
  key :: string
  cp_lastModified :: int

record ChunkInfo =
  chunk_start :: int
  chunk_end :: int
  downloaded :: bool

text \<open>\<open>interface DownloadProgress\<close>; \<open>chunks\<close> is keyed by the indices \<open>0, 1, ...\<close>.\<close>

record DownloadProgress =
  dp_totalSize :: int
  downloadedSize :: int
  chunks :: "ChunkInfo list"
  dp_fileName :: string
  dp_key :: string
  dp_lastModified :: int

definition CHUNK_SIZE :: nat where
  "CHUNK_SIZE = 5 * 1024 * 1024"

datatype error =
    S3NotConfigured
  | FileTooSmall
  | UploadCancelled
  | NetworkFailure
  | NoSuchUpload
  | InvalidPart
  | NoSuchKey
  | InvalidRange

section \<open>The object store behind the AWS client\<close>

text \<open>
  The store is the environment of the service: objects by key, open multipart
  sessions by upload id, and the log of the requests it has received.  A request whose
  network outcome \<open>ok\<close> is \<open>False\<close> is logged and changes nothing else.
\<close>

datatype request =
    CreateMultipartUpload string
  | UploadPart string nat nat "byte list"
  | CompleteMultipartUpload string nat "(string \<times> nat) list"
  | HeadObject string
  | GetObject string int int

record S3Object =
  content :: "byte list"
  modified :: int

record Session =
  skey :: string
  sparts :: "nat \<rightharpoonup> byte list"

record S3 =
  objects :: "string \<rightharpoonup> S3Object"
  sessions :: "nat \<rightharpoonup> Session"
  nextUploadId :: nat
  etagOf :: "byte list \<Rightarrow> string"
  clock :: int
  requests :: "request list"

definition logRequest :: "request \<Rightarrow> S3 \<Rightarrow> S3" where
  "logRequest rq s = s\<lparr>requests := requests s @ [rq]\<rparr>"

definition createMultipartUpload :: "bool \<Rightarrow> string \<Rightarrow> S3 \<Rightarrow> S3 \<times> (error + nat)" where
  "createMultipartUpload ok k s =
     (let s1 = logRequest (CreateMultipartUpload k) s in
      if \<not> ok then (s1, Inl NetworkFailure)
      else (s1\<lparr>sessions := (sessions s1)(nextUploadId s1 \<mapsto> \<lparr>skey = k, sparts = Map.empty\<rparr>),
                nextUploadId := Suc (nextUploadId s1)\<rparr>,
            Inr (nextUploadId s1)))"

definition uploadPart ::
  "bool \<Rightarrow> string \<Rightarrow> nat \<Rightarrow> nat \<Rightarrow> byte list \<Rightarrow> S3 \<Rightarrow> S3 \<times> (error + string)" where
  "uploadPart ok k partNumber uid body s =
     (let s1 = logRequest (UploadPart k partNumber uid body) s in
      if \<not> ok then (s1, Inl NetworkFailure)
      else (case sessions s1 uid of
              None \<Rightarrow> (s1, Inl NoSuchUpload)
            | Some ses \<Rightarrow>
                if skey ses \<noteq> k then (s1, Inl NoSuchUpload)
                else (s1\<lparr>sessions := (sessions s1)(uid \<mapsto> ses\<lparr>sparts := (sparts ses)(partNumber \<mapsto> body)\<rparr>)\<rparr>,
                      Inr (etagOf s1 body))))"

text \<open>The part named by one manifest entry, when the session holds it under that tag.\<close>

definition manifestPart :: "S3 \<Rightarrow> Session \<Rightarrow> string \<times> nat \<Rightarrow> byte list option" where
  "manifestPart s ses entry =
     (case sparts ses (snd entry) of
        None \<Rightarrow> None
      | Some body \<Rightarrow> if etagOf s body = fst entry then Some body else None)"

definition completeMultipartUpload ::
  "bool \<Rightarrow> string \<Rightarrow> nat \<Rightarrow> (string \<times> nat) list \<Rightarrow> S3 \<Rightarrow> S3 \<times> (error + unit)" where
  "completeMultipartUpload ok k uid manifest s =
     (let s1 = logRequest (CompleteMultipartUpload k uid manifest) s in
      if \<not> ok then (s1, Inl NetworkFailure)
      else (case sessions s1 uid of
              None \<Rightarrow> (s1, Inl NoSuchUpload)
            | Some ses \<Rightarrow>
                if skey ses \<noteq> k then (s1, Inl NoSuchUpload)
                else if list_all (\<lambda>entry. manifestPart s1 ses entry \<noteq> None) manifest
                then (s1\<lparr>objects := (objects s1)(k \<mapsto>
                            \<lparr>content = concat (map (\<lambda>entry. the (manifestPart s1 ses entry)) manifest),
                             modified = clock s1\<rparr>),
                          sessions := (sessions s1)(uid := None)\<rparr>,
                      Inr ())
                else (s1, Inl InvalidPart)))"

definition headObject :: "bool \<Rightarrow> string \<Rightarrow> S3 \<Rightarrow> S3 \<times> (error + int \<times> int)" where
  "headObject ok k s =
     (let s1 = logRequest (HeadObject k) s in
      if \<not> ok then (s1, Inl NetworkFailure)
      else (case objects s1 k of
              None \<Rightarrow> (s1, Inl NoSuchKey)
            | Some ob \<Rightarrow> (s1, Inr (int (length (content ob)), modified ob))))"

text \<open>\<open>Range: bytes=rstart-rend\<close>, both inclusive; \<open>rend\<close> beyond the end is clamped.\<close>

definition getObject :: "bool \<Rightarrow> string \<Rightarrow> int \<Rightarrow> int \<Rightarrow> S3 \<Rightarrow> S3 \<times> (error + byte list)" where
  "getObject ok k rstart rend s =
     (let s1 = logRequest (GetObject k rstart rend) s in
      if \<not> ok then (s1, Inl NetworkFailure)
      else (case objects s1 k of
              None \<Rightarrow> (s1, Inl NoSuchKey)
            | Some ob \<Rightarrow>
                if rstart < 0 \<or> rend < rstart \<or> int (length (content ob)) \<le> rstart
                then (s1, Inl InvalidRange)
                else (s1, Inr (take (nat (rend - rstart + 1)) (drop (nat rstart) (content ob))))))"

section \<open>The service state\<close>

text \<open>
  \<open>ctl\<close> is one \<open>abortController\<close> object together with the \<open>isAborted\<close> variable its
  \<open>abort\<close> closure captures.  The objects live in a heap (\<open>ctls\<close>) because
  \<open>activeUploads\<close> and the running invocation share them.  \<open>localStorage\<close> is split
  by the two key prefixes \<open>resumable_upload_\<close> and \<open>resumable_download_\<close>; the stores
  are keyed by what follows the prefix and keep \<open>localStorage.key(i)\<close> order.
\<close>

record ctl =
  isPaused :: bool
  isAborted :: bool

record world =
  configured :: bool
  activeUploads :: "string \<rightharpoonup> nat"
  ctls :: "nat \<Rightarrow> ctl"
  nextCtl :: nat
  uploadStore :: "(string \<times> ChunkProgress) list"
  downloadStore :: "(string \<times> DownloadProgress) list"
  s3 :: S3

definition saveUploadProgress :: "string \<Rightarrow> ChunkProgress \<Rightarrow> world \<Rightarrow> world" where
  "saveUploadProgress k progress w = w\<lparr>uploadStore := AList.update k progress (uploadStore w)\<rparr>"

definition loadUploadProgress :: "world \<Rightarrow> string \<Rightarrow> ChunkProgress option" where
  "loadUploadProgress w k = map_of (uploadStore w) k"

definition saveDownloadProgress :: "string \<Rightarrow> DownloadProgress \<Rightarrow> world \<Rightarrow> world" where
  "saveDownloadProgress k progress w = w\<lparr>downloadStore := AList.update k progress (downloadStore w)\<rparr>"

definition loadDownloadProgress :: "world \<Rightarrow> string \<Rightarrow> DownloadProgress option" where
  "loadDownloadProgress w k = map_of (downloadStore w) k"

definition clearUploadProgress :: "string \<Rightarrow> world \<Rightarrow> world" where
  "clearUploadProgress k w = w\<lparr>uploadStore := AList.delete k (uploadStore w)\<rparr>"

definition clearDownloadProgress :: "string \<Rightarrow> world \<Rightarrow> world" where
  "clearDownloadProgress k w = w\<lparr>downloadStore := AList.delete k (downloadStore w)\<rparr>"

subsection \<open>pauseUpload, resumeUpload, cancelUpload\<close>

definition pauseUpload :: "string \<Rightarrow> world \<Rightarrow> world" where
  "pauseUpload fileKey w =
     (case activeUploads w fileKey of
        None \<Rightarrow> w
      | Some r \<Rightarrow> w\<lparr>ctls := (ctls w)(r := (ctls w r)\<lparr>isPaused := True\<rparr>)\<rparr>)"

definition resumeUpload :: "string \<Rightarrow> world \<Rightarrow> world" where
  "resumeUpload fileKey w =
     (case activeUploads w fileKey of
        None \<Rightarrow> w
      | Some r \<Rightarrow> w\<lparr>ctls := (ctls w)(r := (ctls w r)\<lparr>isPaused := False\<rparr>)\<rparr>)"

text \<open>The \<open>abort\<close> closure of the controller \<open>r\<close> that was registered under \<open>fileKey\<close>.\<close>

definition abort :: "nat \<Rightarrow> string \<Rightarrow> world \<Rightarrow> world" where
  "abort r fileKey w =
     w\<lparr>ctls := (ctls w)(r := (ctls w r)\<lparr>isAborted := True\<rparr>),
       activeUploads := (activeUploads w)(fileKey := None)\<rparr>"

definition isDigit :: "char \<Rightarrow> bool" where
  "isDigit c = (c \<in> set ''0123456789'')"

text \<open>
  \<open>s.replace(/_\d+$/, '')\<close>: the only possible match is the last underscore when
  nothing but one or more digits follows it.  \<open>stripNumSuffix\<close> is that match.
\<close>

definition stripNumSuffix :: "string \<Rightarrow> string option" where
  "stripNumSuffix s =
     (let r = rev s; ds = takeWhile isDigit r; rest = dropWhile isDigit r in
      if ds \<noteq> [] \<and> rest \<noteq> [] \<and> hd rest = CHR ''_'' then Some (rev (tl rest)) else None)"

definition replaceNum1 :: "string \<Rightarrow> string" where
  "replaceNum1 s = (case stripNumSuffix s of None \<Rightarrow> s | Some p \<Rightarrow> p)"

text \<open>\<open>s.replace(/_\d+_\d+$/, '')\<close>.\<close>

definition replaceNum2 :: "string \<Rightarrow> string" where
  "replaceNum2 s =
     (case stripNumSuffix s of
        None \<Rightarrow> s
      | Some p \<Rightarrow> (case stripNumSuffix p of None \<Rightarrow> s | Some q \<Rightarrow> q))"

definition cancelUpload :: "string \<Rightarrow> world \<Rightarrow> world" where
  "cancelUpload fileKey w =
     (let w1 = (case activeUploads w fileKey of None \<Rightarrow> w | Some r \<Rightarrow> abort r fileKey w);
          w2 = clearUploadProgress fileKey w1;
          keyVariations = [fileKey, replaceNum1 fileKey, replaceNum2 fileKey]
      in fold clearUploadProgress keyVariations w2)"

section \<open>resumableUpload\<close>

text \<open>Template literals print numbers in decimal.\<close>

fun showNat :: "nat \<Rightarrow> string" where
  "showNat n = (if n < 10 then [''0123456789'' ! n]
                else showNat (n div 10) @ [''0123456789'' ! (n mod 10)])"

definition showInt :: "int \<Rightarrow> string" where
  "showInt i = (if i < 0 then CHR ''-'' # showNat (nat (- i)) else showNat (nat i))"

text \<open>\<open>`${key}_${file.name}_${file.size}_${file.lastModified}`\<close>\<close>

definition uploadFileKey :: "string \<Rightarrow> File \<Rightarrow> string" where
  "uploadFileKey k f =
     k @ ''_'' @ name f @ ''_'' @ showNat (fsize f) @ ''_'' @ showInt (lastModified f)"

text \<open>
  \<open>resumableUpload\<close> is asynchronous: other code runs while it awaits a request or
  sleeps in its pause loop.  What that code can do to the state the upload reads is
  call the three methods above.  The environment of one invocation gives, for every
  await, the network outcome of the request and the calls made meanwhile.  The sleeps
  of the pause loop before part \<open>p\<close> are the list \<open>atSleep e p\<close>; when the list is used
  up and the upload is still paused, the invocation has not returned (\<open>Suspended\<close>).
\<close>

datatype call = PauseUpload string | ResumeUpload string | CancelUpload string

fun applyCall :: "call \<Rightarrow> world \<Rightarrow> world" where
  "applyCall (PauseUpload k) w = pauseUpload k w"
| "applyCall (ResumeUpload k) w = resumeUpload k w"
| "applyCall (CancelUpload k) w = cancelUpload k w"

record env =
  createOk :: bool
  partOk :: "nat \<Rightarrow> bool"
  completeOk :: bool
  atCreate :: "call list"
  atPart :: "nat \<Rightarrow> call list"
  atSleep :: "nat \<Rightarrow> call list list"
  atComplete :: "call list"

datatype outcome = Finished | Threw error | Suspended

definition withS3 :: "(S3 \<Rightarrow> S3 \<times> 'a) \<Rightarrow> world \<Rightarrow> world \<times> 'a" where
  "withS3 op w = (let (s', r) = op (s3 w) in (w\<lparr>s3 := s'\<rparr>, r))"

text \<open>\<open>while (abortController.isPaused && !isAborted) await sleep(1000)\<close>\<close>

fun pauseWait :: "nat \<Rightarrow> call list list \<Rightarrow> world \<Rightarrow> world \<times> bool" where
  "pauseWait r [] w = (w, \<not> (isPaused (ctls w r) \<and> \<not> isAborted (ctls w r)))"
| "pauseWait r (cs # css) w =
     (if isPaused (ctls w r) \<and> \<not> isAborted (ctls w r)
      then pauseWait r css (fold applyCall cs w)
      else (w, True))"

definition totalChunksOf :: "nat \<Rightarrow> nat" where
  "totalChunksOf sz = (sz + CHUNK_SIZE - 1) div CHUNK_SIZE"

text \<open>
  The body of the \<open>for\<close> loop of the \<open>try\<close> block, for one part number.  It returns
  the state, the \<open>progress\<close> object as the \<open>catch\<close> block will see it, and how the
  iteration ended: \<open>Finished\<close> when the loop goes on with the next part number (the end
  of the body, or \<open>continue\<close>).
\<close>

definition uploadIteration ::
  "env \<Rightarrow> File \<Rightarrow> string \<Rightarrow> string \<Rightarrow> nat \<Rightarrow> nat \<Rightarrow> ChunkProgress \<Rightarrow> world
     \<Rightarrow> world \<times> ChunkProgress \<times> outcome" where
  "uploadIteration e f k fileKey r partNumber progress w =
     (if isAborted (ctls w r) then (w, progress, Threw UploadCancelled)
      else
        let (w1, resumed) =
              (if isPaused (ctls w r)
               then pauseWait r (atSleep e partNumber) (saveUploadProgress fileKey progress w)
               else (w, True))
        in
        if \<not> resumed then (w1, progress, Suspended)
        else if isPaused (ctls w r) \<and> isAborted (ctls w1 r) then (w1, progress, Threw UploadCancelled)
        else if map_of (parts progress) partNumber \<noteq> None then (w1, progress, Finished)
        else
          let start = (partNumber - 1) * CHUNK_SIZE;
              end' = min (start + CHUNK_SIZE) (fsize f);
              chunk = slice start end' (bytes f);
              (w2, res) = withS3 (uploadPart (partOk e partNumber) k partNumber (uploadId progress) chunk) w1;
              w3 = fold applyCall (atPart e partNumber) w2
          in
          (case res of
             Inl err \<Rightarrow> (w3, progress, Threw err)
           | Inr tag \<Rightarrow>
               let progress' = progress
                     \<lparr>parts := AList.update partNumber \<lparr>etag = tag, psize = length chunk\<rparr> (parts progress),
                      uploadedSize := uploadedSize progress + length chunk\<rparr>;
                   w4 = saveUploadProgress fileKey progress' w3
               in (w4, progress', Finished)))"

text \<open>The loop over the part numbers still to visit; it stops at the first iteration that throws.\<close>

fun uploadParts ::
  "env \<Rightarrow> File \<Rightarrow> string \<Rightarrow> string \<Rightarrow> nat \<Rightarrow> nat list \<Rightarrow> ChunkProgress \<Rightarrow> world
     \<Rightarrow> world \<times> ChunkProgress \<times> outcome" where
  "uploadParts e f k fileKey r [] progress w = (w, progress, Finished)"
| "uploadParts e f k fileKey r (partNumber # rest) progress w =
     (case uploadIteration e f k fileKey r partNumber progress w of
        (w1, progress1, Finished) \<Rightarrow> uploadParts e f k fileKey r rest progress1 w1
      | (w1, progress1, out) \<Rightarrow> (w1, progress1, out))"

text \<open>
  \<open>Object.keys(progress.parts).sort(...).map(...)\<close>: the completion manifest, by
  ascending part number.
\<close>

definition manifestOf :: "ChunkProgress \<Rightarrow> (string \<times> nat) list" where
  "manifestOf progress =
     map (\<lambda>partNumber. (etag (the (map_of (parts progress) partNumber)), partNumber))
         (sort (map fst (parts progress)))"

text \<open>The \<open>try\<close> block: the loop, then the completion request and the cleanup.\<close>

definition uploadTry ::
  "env \<Rightarrow> File \<Rightarrow> string \<Rightarrow> string \<Rightarrow> nat \<Rightarrow> ChunkProgress \<Rightarrow> world
     \<Rightarrow> world \<times> ChunkProgress \<times> outcome" where
  "uploadTry e f k fileKey r progress w =
     (let totalChunks = totalChunksOf (fsize f);
          (w1, progress1, out) = uploadParts e f k fileKey r [1..<Suc totalChunks] progress w
      in
      case out of
        Finished \<Rightarrow>
          (let (w2, res) = withS3 (completeMultipartUpload (completeOk e) k (uploadId progress1)
                                      (manifestOf progress1)) w1;
               w3 = fold applyCall (atComplete e) w2
           in case res of
                Inl err \<Rightarrow> (w3, progress1, Threw err)
              | Inr u \<Rightarrow>
                  (let w4 = clearUploadProgress fileKey w3
                   in (w4\<lparr>activeUploads := (activeUploads w4)(fileKey := None)\<rparr>, progress1, Finished)))
      | _ \<Rightarrow> (w1, progress1, out))"

text \<open>The \<open>catch\<close> block.\<close>

definition uploadCatch :: "string \<Rightarrow> nat \<Rightarrow> world \<times> ChunkProgress \<times> outcome \<Rightarrow> world \<times> outcome" where
  "uploadCatch fileKey r res =
     (case res of
        (w, progress, Threw err) \<Rightarrow>
          (let w1 = (if \<not> isAborted (ctls w r) then saveUploadProgress fileKey progress w else w)
           in (w1\<lparr>activeUploads := (activeUploads w1)(fileKey := None)\<rparr>, Threw err))
      | (w, progress, out) \<Rightarrow> (w, out))"

text \<open>
  \<open>resumableUpload(file, key, onProgress)\<close>.  The \<open>onProgress\<close> callback only reports to
  the caller and is left out.
\<close>

definition resumableUpload :: "env \<Rightarrow> File \<Rightarrow> string \<Rightarrow> world \<Rightarrow> world \<times> outcome" where
  "resumableUpload e f k w =
     (if \<not> configured w then (w, Threw S3NotConfigured)
      else if fsize f < 10 * 1024 * 1024 then (w, Threw FileTooSmall)
      else
        let fileKey = uploadFileKey k f;
            stored = loadUploadProgress w fileKey;
            r = nextCtl w;
            w1 = w\<lparr>ctls := (ctls w)(r := \<lparr>isPaused = False, isAborted = False\<rparr>),
                   nextCtl := Suc r,
                   activeUploads := (activeUploads w)(fileKey \<mapsto> r)\<rparr>;
            (stored1, w2) =
              (case stored of
                 Some progress \<Rightarrow>
                   if totalSize progress \<noteq> fsize f \<or> fileName progress \<noteq> name f
                   then (None, clearUploadProgress fileKey w1)
                   else (stored, w1)
               | None \<Rightarrow> (stored, w1))
        in
        case stored1 of
          Some progress \<Rightarrow> uploadCatch fileKey r (uploadTry e f k fileKey r progress w2)
        | None \<Rightarrow>
            (let (w3, res) = withS3 (createMultipartUpload (createOk e) k) w2;
                 w4 = fold applyCall (atCreate e) w3
             in case res of
                  Inl err \<Rightarrow> (w4, Threw err)
                | Inr uid \<Rightarrow>
                    uploadCatch fileKey r
                      (uploadTry e f k fileKey r
                         \<lparr>uploadId = uid, parts = [], totalSize = fsize f, uploadedSize = 0,
                          fileName = name f, key = k, cp_lastModified = lastModified f\<rparr>
                         w4)))"

section \<open>resumableDownload\<close>

record denv =
  headOk :: bool
  chunkOk :: "nat \<Rightarrow> bool"
  refetchOk :: "nat \<Rightarrow> bool"

text \<open>\<open>`${key}_${fileName}`\<close>\<close>

definition downloadFileKey :: "string \<Rightarrow> string \<Rightarrow> string" where
  "downloadFileKey k fname = k @ ''_'' @ fname"

text \<open>
  The chunk table of a new record.  \<open>Math.ceil(totalSize / CHUNK_SIZE)\<close> is the integer
  ceiling; the loop body runs only for \<open>i\<close> below it.
\<close>

definition mkChunk :: "int \<Rightarrow> nat \<Rightarrow> ChunkInfo" where
  "mkChunk totalSz i =
     (let start = int i * int CHUNK_SIZE;
          end' = min (start + int CHUNK_SIZE - 1) (totalSz - 1)
      in \<lparr>chunk_start = start, chunk_end = end', downloaded = False\<rparr>)"

definition mkChunks :: "int \<Rightarrow> ChunkInfo list" where
  "mkChunks totalSz =
     (let totalChunks = (totalSz + int CHUNK_SIZE - 1) div int CHUNK_SIZE
      in map (mkChunk totalSz) [0..<nat totalChunks])"

text \<open>The update of \<open>progress\<close> after the range request of chunk \<open>index\<close> has answered.\<close>

definition markDownloaded :: "nat \<Rightarrow> DownloadProgress \<Rightarrow> DownloadProgress" where
  "markDownloaded index progress =
     (let chunkInfo = chunks progress ! index
      in progress\<lparr>chunks := (chunks progress)[index := chunkInfo\<lparr>downloaded := True\<rparr>],
                  downloadedSize := downloadedSize progress + (chunk_end chunkInfo - chunk_start chunkInfo + 1)\<rparr>)"

text \<open>
  The first loop, over \<open>Object.entries(progress.chunks)\<close>; \<open>got\<close> is \<open>downloadedChunks\<close>.
  The last component is the error that ended the loop, if any.
\<close>

fun fetchChunks ::
  "denv \<Rightarrow> string \<Rightarrow> string \<Rightarrow> nat list \<Rightarrow> DownloadProgress \<Rightarrow> (nat \<rightharpoonup> byte list) \<Rightarrow> world
     \<Rightarrow> world \<times> DownloadProgress \<times> (nat \<rightharpoonup> byte list) \<times> error option" where
  "fetchChunks e k fileKey [] progress got w = (w, progress, got, None)"
| "fetchChunks e k fileKey (index # rest) progress got w =
     (let chunkInfo = chunks progress ! index in
      if downloaded chunkInfo then fetchChunks e k fileKey rest progress got w
      else
        let (w1, res) = withS3 (getObject (chunkOk e index) k (chunk_start chunkInfo) (chunk_end chunkInfo)) w
        in case res of
             Inl err \<Rightarrow> (w1, progress, got, Some err)
           | Inr body \<Rightarrow>
               let progress' = markDownloaded index progress;
                   w2 = saveDownloadProgress fileKey progress' w1
               in fetchChunks e k fileKey rest progress' (got(index \<mapsto> body)) w2)"

text \<open>The second loop, which builds \<open>allChunks\<close>.\<close>

fun assemble ::
  "denv \<Rightarrow> string \<Rightarrow> nat list \<Rightarrow> DownloadProgress \<Rightarrow> (nat \<rightharpoonup> byte list) \<Rightarrow> byte list list \<Rightarrow> world
     \<Rightarrow> world \<times> (error + byte list list)" where
  "assemble e k [] progress got allChunks w = (w, Inr allChunks)"
| "assemble e k (i # rest) progress got allChunks w =
     (case got i of
        Some body \<Rightarrow> assemble e k rest progress got (allChunks @ [body]) w
      | None \<Rightarrow>
          (let chunkInfo = chunks progress ! i;
               (w1, res) = withS3 (getObject (refetchOk e i) k (chunk_start chunkInfo) (chunk_end chunkInfo)) w
           in (case res of
                 Inl err \<Rightarrow> (w1, Inl err)
               | Inr body \<Rightarrow> assemble e k rest progress got (allChunks @ [body]) w1)))"

text \<open>\<open>resumableDownload(key, fileName, onProgress)\<close>; the result is the content of the \<open>Blob\<close>.\<close>

definition resumableDownload :: "denv \<Rightarrow> string \<Rightarrow> string \<Rightarrow> world \<Rightarrow> world \<times> (error + byte list)" where
  "resumableDownload e k fname w =
     (if \<not> configured w then (w, Inl S3NotConfigured)
      else
        let fileKey = downloadFileKey k fname;
            stored = loadDownloadProgress w fileKey;
            (w1, hd') = withS3 (headObject (headOk e) k) w
        in case hd' of
             Inl err \<Rightarrow> (w1, Inl err)
           | Inr (totalSz, lastMod) \<Rightarrow>
              (let (stored1, w2) =
                     (case stored of
                        Some progress \<Rightarrow>
                          if dp_lastModified progress \<noteq> lastMod
                          then (None, clearDownloadProgress fileKey w1)
                          else (stored, w1)
                      | None \<Rightarrow> (stored, w1));
                   progress =
                     (case stored1 of
                        Some p \<Rightarrow> p
                      | None \<Rightarrow> \<lparr>dp_totalSize = totalSz, downloadedSize = 0, chunks = mkChunks totalSz,
                                  dp_fileName = fname, dp_key = k, dp_lastModified = lastMod\<rparr>);
                   (w3, progress1, got, failed) =
                     fetchChunks e k fileKey [0..<length (chunks progress)] progress Map.empty w2
               in (case failed of
                     Some err \<Rightarrow> (w3, Inl err)
                   | None \<Rightarrow>
                       (case assemble e k [0..<length (chunks progress1)] progress1 got [] w3 of
                          (w4, Inl err) \<Rightarrow> (w4, Inl err)
                        | (w4, Inr allChunks) \<Rightarrow>
                            (clearDownloadProgress fileKey w4, Inr (concat allChunks))))))"

section \<open>Readers of the persisted records\<close>

text \<open>
  \<open>getPendingUploads\<close> and \<open>getPendingDownloads\<close> walk \<open>localStorage\<close> and copy the
  records with the wanted prefix into a fresh object.  They call neither \<open>setItem\<close> nor
  \<open>removeItem\<close>: the state is returned as it was received.
\<close>

definition getPendingUploads :: "world \<Rightarrow> world \<times> (string \<times> ChunkProgress) list" where
  "getPendingUploads w =
     (w, fold (\<lambda>(uploadKey, progress) uploads. AList.update uploadKey progress uploads) (uploadStore w) [])"

definition getPendingDownloads :: "world \<Rightarrow> world \<times> (string \<times> DownloadProgress) list" where
  "getPendingDownloads w =
     (w, fold (\<lambda>(downloadKey, progress) downloads. AList.update downloadKey progress downloads)
           (downloadStore w) [])"

text \<open>
  \<open>Object.entries\<close> lists the own string keys of an object: first the keys that are
  array indices (canonical decimal numerals below \<open>2^32 - 1\<close>) by ascending value, then
  the other keys in the order in which they were added.
\<close>

definition digitValue :: "char \<Rightarrow> nat" where
  "digitValue c = length (takeWhile (\<lambda>d. d \<noteq> c) ''0123456789'')"

definition readNat :: "string \<Rightarrow> nat" where
  "readNat s = foldl (\<lambda>n c. 10 * n + digitValue c) 0 s"

definition isArrayIndex :: "string \<Rightarrow> bool" where
  "isArrayIndex s =
     (s \<noteq> [] \<and> list_all isDigit s \<and> (hd s \<noteq> CHR ''0'' \<or> length s = 1) \<and> readNat s < 4294967295)"

definition objectEntries :: "(string \<times> 'a) list \<Rightarrow> (string \<times> 'a) list" where
  "objectEntries obj =
     sort_key (\<lambda>entry. readNat (fst entry)) (filter (\<lambda>entry. isArrayIndex (fst entry)) obj)
       @ filter (\<lambda>entry. \<not> isArrayIndex (fst entry)) obj"

text \<open>
  \<open>clearCompletedUploads\<close>.  \<open>ge999 u t\<close> stands for the double-precision test
  \<open>(u / t) * 100 >= 99.9\<close> on the two sizes of a record.
\<close>

definition clearCompletedUploads :: "(nat \<Rightarrow> nat \<Rightarrow> bool) \<Rightarrow> world \<Rightarrow> world" where
  "clearCompletedUploads ge999 w =
     (let (w0, uploads) = getPendingUploads w
      in fold (\<lambda>(uploadKey, progress) w'.
                 if ge999 (uploadedSize progress) (totalSize progress)
                 then clearUploadProgress uploadKey w' else w')
              (objectEntries uploads) w0)"

definition clearUploadFromStorage :: "string \<Rightarrow> world \<Rightarrow> world" where
  "clearUploadFromStorage fileKey w = clearUploadProgress fileKey w"

definition isUploadActive :: "world \<Rightarrow> string \<Rightarrow> bool" where
  "isUploadActive w fileKey = (activeUploads w fileKey \<noteq> None)"

definition getUploadProgress :: "world \<Rightarrow> string \<Rightarrow> string \<Rightarrow> nat \<Rightarrow> int \<Rightarrow> ChunkProgress option" where
  "getUploadProgress w k fname fileSize lastMod =
     loadUploadProgress w (k @ ''_'' @ fname @ ''_'' @ showNat fileSize @ ''_'' @ showInt lastMod)"

section \<open>UploadQueue.tsx\<close>

text \<open>
  A queue item with the fields the queue logic reads: of \<open>item.file\<close> its name, size
  and modification time.  The progress percentage, the error text and \<open>addedAt\<close> are
  display data and are left out.
\<close>

datatype status = Queued | Uploading | Paused | Completed | Errored | Resuming

record UploadQueueItem =
  item_id :: string
  file_name :: string
  file_size :: nat
  file_lastModified :: int
  item_key :: string
  item_status :: status
  isResumable :: bool

text \<open>The component state: \<open>queue\<close>, and \<open>isProcessing\<close> with \<open>processingRef\<close>.\<close>

record QueueState =
  queue :: "UploadQueueItem list"
  isProcessing :: bool

definition itemFileKey :: "UploadQueueItem \<Rightarrow> string" where
  "itemFileKey item =
     item_key item @ ''_'' @ file_name item @ ''_'' @ showNat (file_size item) @ ''_''
       @ showInt (file_lastModified item)"

definition setStatus :: "string \<Rightarrow> status \<Rightarrow> UploadQueueItem list \<Rightarrow> UploadQueueItem list" where
  "setStatus i st q = map (\<lambda>it. if item_id it = i then it\<lparr>item_status := st\<rparr> else it) q"

text \<open>
  \<open>addFilesToQueue\<close> for one file (\<open>files.forEach\<close> body); \<open>newId\<close> stands for the
  time-and-random id.
\<close>

definition addFileToQueue ::
  "world \<Rightarrow> string \<Rightarrow> UploadQueueItem list \<Rightarrow> string \<times> string \<times> nat \<times> int
     \<Rightarrow> UploadQueueItem list \<Rightarrow> UploadQueueItem list" where
  "addFileToQueue w currentPath q file newItems =
     (case file of (newId, fname, fsz, lastMod) \<Rightarrow>
        let k = currentPath @ fname in
        if find (\<lambda>it. item_key it = k \<and> file_name it = fname \<and> file_size it = fsz
                       \<and> file_lastModified it = lastMod) q \<noteq> None
        then newItems
        else newItems @
          [\<lparr>item_id = newId, file_name = fname, file_size = fsz, file_lastModified = lastMod,
            item_key = k,
            item_status = (if getUploadProgress w k fname fsz lastMod \<noteq> None then Paused else Queued),
            isResumable = (fsz \<ge> 10 * 1024 * 1024)\<rparr>])"

definition addFilesToQueue ::
  "world \<Rightarrow> string \<Rightarrow> (string \<times> string \<times> nat \<times> int) list \<Rightarrow> QueueState \<Rightarrow> QueueState" where
  "addFilesToQueue w currentPath files st =
     st\<lparr>queue := queue st @ fold (addFileToQueue w currentPath (queue st)) files []\<rparr>"

text \<open>
  \<open>processQueue\<close> up to the point where \<open>processUploadItem\<close> awaits the transfer:
  the guard, the choice of the first queued item, and the marking as uploading.
  When \<open>processUploadItem\<close> returns early, the \<open>finally\<close> block resets the flag.
\<close>

definition processQueue :: "world \<Rightarrow> QueueState \<Rightarrow> QueueState" where
  "processQueue w st =
     (if isProcessing st then st
      else case filter (\<lambda>it. item_status it = Queued) (queue st) of
             [] \<Rightarrow> st
           | nextItem # _ \<Rightarrow>
               (case find (\<lambda>it. item_id it = item_id nextItem) (queue st) of
                  None \<Rightarrow> st
                | Some currentItem \<Rightarrow>
                    if item_status currentItem = Completed \<or> item_status currentItem = Errored then st
                    else if isUploadActive w (itemFileKey nextItem) then st
                    else st\<lparr>queue := setStatus (item_id nextItem) Uploading (queue st),
                            isProcessing := True\<rparr>))"

text \<open>The queue's own \<open>pauseUpload\<close>, \<open>resumeUpload\<close> and \<open>retryUpload\<close>, on the queue state.\<close>

definition queuePause :: "string \<Rightarrow> QueueState \<Rightarrow> QueueState" where
  "queuePause i st = st\<lparr>queue := setStatus i Paused (queue st)\<rparr>"

definition queueResume :: "string \<Rightarrow> QueueState \<Rightarrow> QueueState" where
  "queueResume i st =
     (let item = find (\<lambda>it. item_id it = i) (queue st);
          newStatus = (case item of
                         Some it \<Rightarrow> if isResumable it then Uploading else Queued
                       | None \<Rightarrow> Queued)
      in st\<lparr>queue := setStatus i newStatus (queue st)\<rparr>)"

definition queueRetry :: "string \<Rightarrow> QueueState \<Rightarrow> QueueState" where
  "queueRetry i st = st\<lparr>queue := setStatus i Queued (queue st)\<rparr>"

definition uploadingCount :: "QueueState \<Rightarrow> nat" where
  "uploadingCount st = length (filter (\<lambda>it. item_status it = Uploading) (queue st))"

text \<open>
  \<open>loadPendingUploads\<close>, with the same test \<open>ge999\<close>; the placeholder file of a surfaced
  item carries the name, the total size and the modification time of the record.
\<close>

definition loadPendingStep ::
  "(nat \<Rightarrow> nat \<Rightarrow> bool) \<Rightarrow> UploadQueueItem list \<Rightarrow> string \<times> ChunkProgress
     \<Rightarrow> world \<times> UploadQueueItem list \<Rightarrow> world \<times> UploadQueueItem list" where
  "loadPendingStep ge999 q entry acc =
     (case (entry, acc) of ((uploadKey, progress), (w, queueItems)) \<Rightarrow>
        if list_ex (\<lambda>it. itemFileKey it = uploadKey) q then (w, queueItems)
        else if ge999 (uploadedSize progress) (totalSize progress)
        then (clearUploadFromStorage uploadKey w, queueItems)
        else if uploadedSize progress \<ge> totalSize progress
        then (clearUploadFromStorage uploadKey w, queueItems)
        else (w, queueItems @
               [\<lparr>item_id = ''pending_'' @ uploadKey, file_name = fileName progress,
                 file_size = totalSize progress, file_lastModified = cp_lastModified progress,
                 item_key = uploadKey, item_status = Paused, isResumable = True\<rparr>]))"

definition loadPendingUploads ::
  "(nat \<Rightarrow> nat \<Rightarrow> bool) \<Rightarrow> QueueState \<Rightarrow> world \<Rightarrow> world \<times> QueueState" where
  "loadPendingUploads ge999 st w =
     (let (w0, pendingUploads) = getPendingUploads w;
          (w1, queueItems) =
            fold (loadPendingStep ge999 (queue st)) (objectEntries pendingUploads) (w0, [])
      in (w1, if queueItems \<noteq> [] then st\<lparr>queue := queueItems\<rparr> else st))"

text \<open>
  The effect that runs once when the component is mounted.  Its closure is the one of
  the first render, in which \<open>queue\<close> is the initial \<open>[]\<close> of \<open>useState\<close>.
\<close>

definition mountEffect :: "(nat \<Rightarrow> nat \<Rightarrow> bool) \<Rightarrow> world \<Rightarrow> world \<times> QueueState" where
  "mountEffect ge999 w =
     loadPendingUploads ge999 \<lparr>queue = [], isProcessing = False\<rparr> (clearCompletedUploads ge999 w)"

section \<open>Concrete states used in the examples\<close>

definition emptyS3 :: S3 where
  "emptyS3 = \<lparr>objects = Map.empty, sessions = Map.empty, nextUploadId = 0,
              etagOf = (\<lambda>body. showNat (length body)), clock = 0, requests = []\<rparr>"

definition idleWorld :: world where
  "idleWorld = \<lparr>configured = True, activeUploads = Map.empty,
                ctls = (\<lambda>r. \<lparr>isPaused = False, isAborted = False\<rparr>), nextCtl = 0,
                uploadStore = [], downloadStore = [], s3 = emptyS3\<rparr>"

text \<open>An environment in which every request succeeds and no other code interferes.\<close>

definition quietEnv :: env where
  "quietEnv = \<lparr>createOk = True, partOk = (\<lambda>p. True), completeOk = True, atCreate = [],
               atPart = (\<lambda>p. []), atSleep = (\<lambda>p. []), atComplete = []\<rparr>"

definition zeroFile :: "string \<Rightarrow> nat \<Rightarrow> int \<Rightarrow> File" where
  "zeroFile nm n t = \<lparr>name = nm, ftype = [], lastModified = t, bytes = replicate n 0\<rparr>"

section \<open>Invariants of the persisted download record\<close>

text \<open>
  \<open>covers lo hi cs\<close>: the inclusive ranges of \<open>cs\<close>, in order, are non-empty, start at
  \<open>lo\<close>, each start where the one before ended, and end at \<open>hi - 1\<close>: they partition
  \<open>[lo, hi)\<close> with no gap and no overlap.
\<close>

fun covers :: "int \<Rightarrow> int \<Rightarrow> ChunkInfo list \<Rightarrow> bool" where
  "covers lo hi [] = (lo = hi)"
| "covers lo hi (c # cs) = (chunk_start c = lo \<and> lo \<le> chunk_end c \<and> covers (chunk_end c + 1) hi cs)"

definition rangesOf :: "ChunkInfo list \<Rightarrow> (int \<times> int) list" where
  "rangesOf cs = map (\<lambda>c. (chunk_start c, chunk_end c)) cs"

text \<open>Chunk \<open>i\<close> spans \<open>[i * 5 MiB, min ((i + 1) * 5 MiB, totalSize) - 1]\<close>.\<close>

definition chunkFormula :: "int \<Rightarrow> ChunkInfo list \<Rightarrow> bool" where
  "chunkFormula totalSz cs =
     (rangesOf cs =
        map (\<lambda>i. (int i * 5242880, min ((int i + 1) * 5242880) totalSz - 1)) [0..<length cs])"

definition completedBytes :: "ChunkInfo list \<Rightarrow> int" where
  "completedBytes cs = sum_list (map (\<lambda>c. chunk_end c - chunk_start c + 1) (filter downloaded cs))"

definition downloadInv :: "DownloadProgress \<Rightarrow> bool" where
  "downloadInv p =
     (covers 0 (dp_totalSize p) (chunks p) \<and> chunkFormula (dp_totalSize p) (chunks p)
      \<and> downloadedSize p = completedBytes (chunks p))"

definition storedDownloadInv :: "world \<Rightarrow> string \<Rightarrow> bool" where
  "storedDownloadInv w fileKey =
     (case loadDownloadProgress w fileKey of None \<Rightarrow> True | Some p \<Rightarrow> downloadInv p)"

text \<open>The bytes of an object that a chunk's range names.\<close>

definition rangeBytes :: "byte list \<Rightarrow> ChunkInfo \<Rightarrow> byte list" where
  "rangeBytes bs c = take (nat (chunk_end c - chunk_start c + 1)) (drop (nat (chunk_start c)) bs)"

text \<open>A stored record that describes the object with content \<open>bs\<close>.\<close>

definition storedFor :: "world \<Rightarrow> string \<Rightarrow> byte list \<Rightarrow> bool" where
  "storedFor w fileKey bs =
     (case loadDownloadProgress w fileKey of
        None \<Rightarrow> True
      | Some p \<Rightarrow> downloadInv p \<and> dp_totalSize p = int (length bs))"

text \<open>Earlier invocations for the same object, one after the other.\<close>

definition downloadCalls :: "denv list \<Rightarrow> string \<Rightarrow> string \<Rightarrow> world \<Rightarrow> world" where
  "downloadCalls es k fname w = fold (\<lambda>e w'. fst (resumableDownload e k fname w')) es w"

definition allOk :: denv where
  "allOk = \<lparr>headOk = True, chunkOk = (\<lambda>i. True), refetchOk = (\<lambda>i. True)\<rparr>"

text \<open>A store that holds one object of 12 MiB, and an environment that loses the third range request.\<close>

definition world12 :: world where
  "world12 = idleWorld\<lparr>s3 := emptyS3\<lparr>objects := [''big.bin'' \<mapsto> \<lparr>content = replicate 12582912 7, modified = 42\<rparr>]\<rparr>\<rparr>"

definition failThird :: denv where
  "failThird = \<lparr>headOk = True, chunkOk = (\<lambda>i. i < 2), refetchOk = (\<lambda>i. True)\<rparr>"

text \<open>
  A store that still holds a fully transferred upload record (as the \<open>catch\<close> block
  leaves it when the completion request fails) and a fully transferred download
  record (as a failed re-fetch in the second loop leaves it).
\<close>

definition staleUpload :: ChunkProgress where
  "staleUpload = \<lparr>uploadId = 0,
       parts = [(1, \<lparr>etag = ''e1'', psize = 5242880\<rparr>), (2, \<lparr>etag = ''e2'', psize = 5242880\<rparr>),
                (3, \<lparr>etag = ''e3'', psize = 5242880\<rparr>), (4, \<lparr>etag = ''e4'', psize = 5242880\<rparr>)],
       totalSize = 20971520, uploadedSize = 20971520, fileName = ''a.bin'', key = ''docs/a.bin'',
       cp_lastModified = 17\<rparr>"

definition staleDownload :: DownloadProgress where
  "staleDownload = \<lparr>dp_totalSize = 12582912, downloadedSize = 12582912,
       chunks = [\<lparr>chunk_start = 0, chunk_end = 5242879, downloaded = True\<rparr>,
                 \<lparr>chunk_start = 5242880, chunk_end = 10485759, downloaded = True\<rparr>,
                 \<lparr>chunk_start = 10485760, chunk_end = 12582911, downloaded = True\<rparr>],
       dp_fileName = ''big.bin'', dp_key = ''big.bin'', dp_lastModified = 42\<rparr>"

definition staleWorld :: world where
  "staleWorld = idleWorld
     \<lparr>uploadStore := [(''docs/a.bin_a.bin_20971520_17'', staleUpload)],
      downloadStore := [(''big.bin_big.bin'', staleDownload)]\<rparr>"

definition emptyQueue :: QueueState where
  "emptyQueue = \<lparr>queue = [], isProcessing = False\<rparr>"

text \<open>
  Two large files dropped on the folder \<open>docs/\<close>, and a store that holds earlier progress
  for the second one.
\<close>

definition twoFiles :: "(string \<times> string \<times> nat \<times> int) list" where
  "twoFiles = [(''id-a'', ''a.bin'', 20971520, 17), (''id-b'', ''b.bin'', 20971520, 18)]"

definition halfUpload :: ChunkProgress where
  "halfUpload = \<lparr>uploadId = 0,
       parts = [(1, \<lparr>etag = ''e1'', psize = 5242880\<rparr>), (2, \<lparr>etag = ''e2'', psize = 5242880\<rparr>)],
       totalSize = 20971520, uploadedSize = 10485760, fileName = ''b.bin'', key = ''docs/b.bin'',
       cp_lastModified = 18\<rparr>"

definition resumeWorld :: world where
  "resumeWorld = idleWorld\<lparr>uploadStore := [(''docs/b.bin_b.bin_20971520_18'', halfUpload)]\<rparr>"

section \<open>Invariant of the persisted upload record\<close>

text \<open>The bytes of part \<open>partNumber\<close> of a file, as the loop slices them.\<close>

definition chunkOf :: "File \<Rightarrow> nat \<Rightarrow> byte list" where
  "chunkOf f partNumber =
     slice ((partNumber - 1) * CHUNK_SIZE)
           (min ((partNumber - 1) * CHUNK_SIZE + CHUNK_SIZE) (fsize f)) (bytes f)"

definition partInfoOf :: "S3 \<Rightarrow> byte list \<Rightarrow> PartInfo" where
  "partInfoOf s body = \<lparr>etag = etagOf s body, psize = length body\<rparr>"

text \<open>
  \<open>acknowledged f k s progress\<close>: the record names an open session of the store for
  the key, its part mapping holds exactly the parts that session has received, each
  with the tag the store gave and its length, these parts are the chunks of the file,
  and \<open>uploadedSize\<close> is the sum of their lengths.
\<close>

definition acknowledged :: "File \<Rightarrow> string \<Rightarrow> S3 \<Rightarrow> ChunkProgress \<Rightarrow> bool" where
  "acknowledged f k s progress =
     (case sessions s (uploadId progress) of
        None \<Rightarrow> False
      | Some ses \<Rightarrow>
          skey ses = k \<and> distinct (map fst (parts progress))
          \<and> (\<forall>p. map_of (parts progress) p = map_option (partInfoOf s) (sparts ses p))
          \<and> (\<forall>p body. sparts ses p = Some body \<longrightarrow>
                 1 \<le> p \<and> p \<le> totalChunksOf (fsize f) \<and> body = chunkOf f p)
          \<and> uploadedSize progress = sum_list (map (\<lambda>x. psize (snd x)) (parts progress)))"

text \<open>The part numbers of the part requests in a log, in order.\<close>

fun partsRequested :: "request list \<Rightarrow> nat list" where
  "partsRequested [] = []"
| "partsRequested (UploadPart k p uid body # rs) = p # partsRequested rs"
| "partsRequested (rq # rs) = partsRequested rs"

text \<open>No other code calls into the service while the invocation awaits.\<close>

definition calm :: "env \<Rightarrow> bool" where
  "calm e = (atCreate e = [] \<and> (\<forall>p. atPart e p = []) \<and> atComplete e = [])"

text \<open>Every request succeeds except the upload of part \<open>j\<close>.\<close>

definition failAt :: "nat \<Rightarrow> env" where
  "failAt j = quietEnv\<lparr>partOk := (\<lambda>p. p \<noteq> j)\<rparr>"

text \<open>The state after the controller of a new invocation has been registered.\<close>

definition registerUpload :: "string \<Rightarrow> world \<Rightarrow> world" where
  "registerUpload fileKey w =
     w\<lparr>ctls := (ctls w)(nextCtl w := \<lparr>isPaused = False, isAborted = False\<rparr>),
       nextCtl := Suc (nextCtl w),
       activeUploads := (activeUploads w)(fileKey \<mapsto> nextCtl w)\<rparr>"

text \<open>The requests the store has received since it was in the state of \<open>w\<close>.\<close>

definition requestsSince :: "world \<Rightarrow> world \<Rightarrow> request list" where
  "requestsSince w w' = drop (length (requests (s3 w))) (requests (s3 w'))"

text \<open>The record of a new upload, and the store after it has opened a session for the key.\<close>

definition freshProgress :: "File \<Rightarrow> string \<Rightarrow> nat \<Rightarrow> ChunkProgress" where
  "freshProgress f k uid =
     \<lparr>uploadId = uid, parts = [], totalSize = fsize f, uploadedSize = 0,
      fileName = name f, key = k, cp_lastModified = lastModified f\<rparr>"

definition openSession :: "string \<Rightarrow> S3 \<Rightarrow> S3" where
  "openSession k s =
     (logRequest (CreateMultipartUpload k) s)
       \<lparr>sessions := (sessions s)(nextUploadId s \<mapsto> \<lparr>skey = k, sparts = Map.empty\<rparr>),
        nextUploadId := Suc (nextUploadId s)\<rparr>"

text \<open>A store with records under a key, under the key without its numeric suffixes, and under other keys.\<close>

definition variantWorld :: world where
  "variantWorld =
     idleWorld\<lparr>uploadStore :=
       [(''docs/a.bin_a.bin_20971520_17'', staleUpload),
        (''docs/a.bin_a.bin_20971520'', staleUpload),
        (''docs/a.bin_a.bin'', staleUpload),
        (''docs/a.bin'', staleUpload),
        (''docs/b.bin_b.bin_20971520_17'', staleUpload)]\<rparr>"

text \<open>
  A store with a fully transferred and a half transferred upload record, a fully
  transferred download record, and the object of that download.
\<close>

definition mixedWorld :: world where
  "mixedWorld = world12
     \<lparr>uploadStore := [(''docs/a.bin_a.bin_20971520_17'', staleUpload),
                      (''docs/b.bin_b.bin_20971520_18'', halfUpload)],
      downloadStore := [(''big.bin_big.bin'', staleDownload)]\<rparr>"

text \<open>
  A 20 MiB file (four parts), the state after its first upload was interrupted at
  part 3, and an environment in which the user pauses the upload while part 3 is in
  flight and cancels it during the first sleep of the pause loop.
\<close>

definition bigFile :: File where
  "bigFile = zeroFile ''a.bin'' 20971520 17"

definition interruptedWorld :: world where
  "interruptedWorld = fst (resumableUpload (failAt 3) bigFile ''docs/a.bin'' idleWorld)"

definition pauseThenCancel :: env where
  "pauseThenCancel = quietEnv
     \<lparr>atPart := (\<lambda>p. if p = 3 then [PauseUpload ''docs/a.bin_a.bin_20971520_17''] else []),
      atSleep := (\<lambda>p. if p = 4 then [[CancelUpload ''docs/a.bin_a.bin_20971520_17'']] else [])\<rparr>"

text \<open>The number of completion requests in a log.\<close>

fun completionsRequested :: "request list \<Rightarrow> nat" where
  "completionsRequested [] = 0"
| "completionsRequested (CompleteMultipartUpload k uid manifest # rs) = Suc (completionsRequested rs)"
| "completionsRequested (rq # rs) = completionsRequested rs"

text \<open>
  The invocation gets as far as the \<open>try\<close> block with a record that is in step with the
  store: it reuses a stored record that is acknowledged, or its request for a new
  session succeeds.
\<close>

definition entersTry :: "env \<Rightarrow> File \<Rightarrow> string \<Rightarrow> world \<Rightarrow> bool" where
  "entersTry e f k w =
     (case loadUploadProgress w (uploadFileKey k f) of
        Some p \<Rightarrow>
          if totalSize p = fsize f \<and> fileName p = name f then acknowledged f k (s3 w) p
          else createOk e
      | None \<Rightarrow> createOk e)"

section \<open>Errors raised by the upload path\<close>

lemma withS3_uploadPart_err:
  "withS3 (uploadPart ok k pn uid body) w = (w', Inl err) \<Longrightarrow> err = NetworkFailure \<or> err = NoSuchUpload"
  by (auto simp: withS3_def uploadPart_def Let_def split: if_splits option.splits prod.splits)

lemma withS3_complete_err:
  "withS3 (completeMultipartUpload ok k uid m) w = (w', Inl err)
   \<Longrightarrow> err = NetworkFailure \<or> err = NoSuchUpload \<or> err = InvalidPart"
  by (auto simp: withS3_def completeMultipartUpload_def Let_def split: if_splits option.splits prod.splits)

lemma withS3_create_err:
  "withS3 (createMultipartUpload ok k) w = (w', Inl err) \<Longrightarrow> err = NetworkFailure"
  by (auto simp: withS3_def createMultipartUpload_def Let_def split: if_splits option.splits prod.splits)

lemma uploadIteration_errors:
  "uploadIteration e f k fileKey r p progress w = (w', progress', Threw err)
   \<Longrightarrow> err = UploadCancelled \<or> err = NetworkFailure \<or> err = NoSuchUpload"
  by (auto simp: uploadIteration_def Let_def split: if_splits prod.splits sum.splits
           dest: withS3_uploadPart_err)

lemma uploadParts_errors:
  "uploadParts e f k fileKey r ps progress w = (w', progress', Threw err)
   \<Longrightarrow> err = UploadCancelled \<or> err = NetworkFailure \<or> err = NoSuchUpload"
proof (induction ps arbitrary: progress w)
  case Nil
  then show ?case by simp
next
  case (Cons p ps)
  then show ?case
    by (auto split: prod.splits outcome.splits dest: uploadIteration_errors)
qed

lemma uploadTry_errors:
  "uploadTry e f k fileKey r progress w = (w', progress', Threw err)
   \<Longrightarrow> err \<noteq> FileTooSmall \<and> err \<noteq> S3NotConfigured"
  by (auto simp: uploadTry_def Let_def split: prod.splits outcome.splits sum.splits
           dest: uploadParts_errors withS3_complete_err)

lemma uploadCatch_errors:
  "uploadCatch fileKey r res = (w', Threw err) \<Longrightarrow> \<exists>w p. res = (w, p, Threw err)"
  by (auto simp: uploadCatch_def Let_def split: prod.splits outcome.splits if_splits)

text \<open>
  Claim C6.  A file below 10 MiB is always rejected, without any change of state, and
  the error is the too-small error whenever the client is configured (the
  configuration check comes first).  A file of 10 MiB or more never gets the
  too-small error.  The boundary cases 10485759 and 10485760 are instances.
\<close>

theorem resumableUpload_threshold:
  "(fsize f < 10 * 1024 * 1024 \<longrightarrow>
      (\<exists>err. resumableUpload e f k w = (w, Threw err)) \<and>
      (configured w \<longrightarrow> resumableUpload e f k w = (w, Threw FileTooSmall)))
   \<and> (10 * 1024 * 1024 \<le> fsize f \<longrightarrow> snd (resumableUpload e f k w) \<noteq> Threw FileTooSmall)"
proof (intro conjI impI)
  assume "fsize f < 10 * 1024 * 1024"
  then show "\<exists>err. resumableUpload e f k w = (w, Threw err)"
    by (simp add: resumableUpload_def)
next
  assume "fsize f < 10 * 1024 * 1024" "configured w"
  then show "resumableUpload e f k w = (w, Threw FileTooSmall)"
    by (simp add: resumableUpload_def)
next
  assume big: "10 * 1024 * 1024 \<le> fsize f"
  show "snd (resumableUpload e f k w) \<noteq> Threw FileTooSmall"
  proof
    assume "snd (resumableUpload e f k w) = Threw FileTooSmall"
    then obtain w' where "resumableUpload e f k w = (w', Threw FileTooSmall)"
      by (cases "resumableUpload e f k w") auto
    with big show False
      by (auto simp: resumableUpload_def Let_def
               split: if_splits prod.splits option.splits sum.splits
               dest!: uploadCatch_errors uploadTry_errors withS3_create_err)
  qed
qed

theorem resumableUpload_threshold_witness:
  "resumableUpload quietEnv (zeroFile ''f'' 10485759 0) ''k'' idleWorld = (idleWorld, Threw FileTooSmall)
   \<and> snd (resumableUpload quietEnv (zeroFile ''f'' 10485760 0) ''k'' idleWorld) \<noteq> Threw FileTooSmall"
  using resumableUpload_threshold [of "zeroFile ''f'' 10485759 0" quietEnv "''k''" idleWorld]
        resumableUpload_threshold [of "zeroFile ''f'' 10485760 0" quietEnv "''k''" idleWorld]
  by (simp add: fsize_def zeroFile_def idleWorld_def)

section \<open>pauseUpload, resumeUpload and cancelUpload on the state\<close>

lemma map_of_clearUploadProgress:
  "map_of (uploadStore (clearUploadProgress k w)) k' = (if k' = k then None else map_of (uploadStore w) k')"
  by (simp add: clearUploadProgress_def delete_conv)

lemma uploadStore_abort [simp]: "uploadStore (abort r fileKey w) = uploadStore w"
  by (simp add: abort_def)

lemma cancelUpload_store:
  "map_of (uploadStore (cancelUpload fileKey w)) k' =
     (if k' = fileKey \<or> k' = replaceNum1 fileKey \<or> k' = replaceNum2 fileKey then None
      else map_of (uploadStore w) k')"
  by (simp add: cancelUpload_def Let_def map_of_clearUploadProgress split: option.splits)

lemma replaceNum_examples:
  "replaceNum1 ''docs/a.bin_a.bin_10485760_1700000000000'' = ''docs/a.bin_a.bin_10485760''"
  "replaceNum2 ''docs/a.bin_a.bin_10485760_1700000000000'' = ''docs/a.bin_a.bin''"
  "replaceNum1 ''docs/a.bin'' = ''docs/a.bin''"
  "replaceNum2 ''docs/a_7'' = ''docs/a_7''"
  by (simp_all add: replaceNum1_def replaceNum2_def stripNumSuffix_def isDigit_def Let_def)

text \<open>
  The two regular expressions of \<open>cancelUpload\<close> on keys written out: a key that ends
  in an underscore and one or more decimal digits loses that suffix, a key that does
  not is left as it is, and what is removed is always a suffix of the key.
\<close>

lemma digits_isDigit: "set ds \<subseteq> set ''0123456789'' \<Longrightarrow> c \<in> set ds \<Longrightarrow> isDigit c"
  unfolding isDigit_def by (rule subsetD)

lemma stripNumSuffix_digits:
  assumes "ds \<noteq> []" and "set ds \<subseteq> set ''0123456789''"
  shows "stripNumSuffix (base @ CHR ''_'' # ds) = Some base"
proof -
  have d: "\<forall>c\<in>set (rev ds). isDigit c" using digits_isDigit[OF assms(2)] by simp
  have u: "\<not> isDigit CHR ''_''" by (simp add: isDigit_def)
  have r: "rev (base @ CHR ''_'' # ds) = rev ds @ CHR ''_'' # rev base" by simp
  have "takeWhile isDigit (rev ds @ CHR ''_'' # rev base)
          = rev ds @ takeWhile isDigit (CHR ''_'' # rev base)"
    by (rule takeWhile_append2) (use d in blast)
  then have t: "takeWhile isDigit (rev ds @ CHR ''_'' # rev base) = rev ds"
    using u by simp
  have "dropWhile isDigit (rev ds @ CHR ''_'' # rev base) = dropWhile isDigit (CHR ''_'' # rev base)"
    by (rule dropWhile_append2) (use d in blast)
  then have dr: "dropWhile isDigit (rev ds @ CHR ''_'' # rev base) = CHR ''_'' # rev base"
    using u by simp
  show ?thesis
    unfolding stripNumSuffix_def r Let_def t dr using assms(1) by simp
qed

lemma stripNumSuffix_shape:
  assumes "stripNumSuffix s = Some p"
  shows "\<exists>ds. s = p @ CHR ''_'' # ds \<and> ds \<noteq> [] \<and> set ds \<subseteq> set ''0123456789''"
proof -
  define t where "t = takeWhile isDigit (rev s)"
  define d where "d = dropWhile isDigit (rev s)"
  from assms have tn: "t \<noteq> []" and dn: "d \<noteq> []" and hd: "hd d = CHR ''_''" and p: "p = rev (tl d)"
    by (auto simp: stripNumSuffix_def Let_def t_def d_def split: if_splits)
  from dn hd have dd: "d = CHR ''_'' # tl d" by (cases d) simp_all
  have "rev s = t @ d" by (simp add: t_def d_def)
  then have "rev s = t @ CHR ''_'' # tl d" using dd by simp
  then have "s = rev (t @ CHR ''_'' # tl d)" by (rule rev_swap[THEN iffD1])
  then have e: "s = p @ CHR ''_'' # rev t" by (simp add: p)
  have "set (rev t) \<subseteq> set ''0123456789''"
  proof
    fix c assume "c \<in> set (rev t)"
    then have "c \<in> set (takeWhile isDigit (rev s))" by (simp add: t_def)
    then have "isDigit c" by (rule set_takeWhileD[THEN conjunct2])
    then show "c \<in> set ''0123456789''" by (simp add: isDigit_def)
  qed
  moreover have "rev t \<noteq> []" using tn by simp
  ultimately show ?thesis using e by blast
qed

lemma replaceNum1_prefix: "\<exists>t. s = replaceNum1 s @ t"
proof (cases "stripNumSuffix s")
  case None
  then have "s = replaceNum1 s @ []" by (simp add: replaceNum1_def)
  then show ?thesis by (rule exI)
next
  case (Some p)
  from stripNumSuffix_shape[OF Some] obtain ds where s: "s = p @ CHR ''_'' # ds" by blast
  have r: "replaceNum1 s = p" using Some by (simp add: replaceNum1_def)
  have "s = replaceNum1 s @ CHR ''_'' # ds" unfolding r by (rule s)
  then show ?thesis by (rule exI)
qed

lemma replaceNum2_prefix: "\<exists>t. s = replaceNum2 s @ t"
proof (cases "stripNumSuffix s")
  case None
  then have "s = replaceNum2 s @ []" by (simp add: replaceNum2_def)
  then show ?thesis by (rule exI)
next
  case (Some p)
  show ?thesis
  proof (cases "stripNumSuffix p")
    case None
    with Some have "s = replaceNum2 s @ []" by (simp add: replaceNum2_def)
    then show ?thesis by (rule exI)
  next
    case q: (Some q)
    from stripNumSuffix_shape[OF Some] obtain ds where s: "s = p @ CHR ''_'' # ds" by blast
    from stripNumSuffix_shape[OF q] obtain es where p: "p = q @ CHR ''_'' # es" by blast
    have r: "replaceNum2 s = q" using Some q by (simp add: replaceNum2_def)
    have sq: "s = q @ (CHR ''_'' # es @ CHR ''_'' # ds)" by (subst s, subst p) simp
    have "s = replaceNum2 s @ (CHR ''_'' # es @ CHR ''_'' # ds)" unfolding r by (rule sq)
    then show ?thesis by (rule exI)
  qed
qed


lemma replaceNum_suffixes:
  assumes "ds1 \<noteq> []" "set ds1 \<subseteq> set ''0123456789''" "ds2 \<noteq> []" "set ds2 \<subseteq> set ''0123456789''"
  shows "replaceNum1 (base @ ''_'' @ ds1 @ ''_'' @ ds2) = base @ ''_'' @ ds1"
    and "replaceNum2 (base @ ''_'' @ ds1 @ ''_'' @ ds2) = base"
proof -
  have a: "stripNumSuffix ((base @ CHR ''_'' # ds1) @ CHR ''_'' # ds2) = Some (base @ CHR ''_'' # ds1)"
    by (rule stripNumSuffix_digits[OF assms(3,4)])
  have b: "stripNumSuffix (base @ CHR ''_'' # ds1) = Some base"
    by (rule stripNumSuffix_digits[OF assms(1,2)])
  from a show "replaceNum1 (base @ ''_'' @ ds1 @ ''_'' @ ds2) = base @ ''_'' @ ds1"
    by (simp add: replaceNum1_def)
  from a b show "replaceNum2 (base @ ''_'' @ ds1 @ ''_'' @ ds2) = base"
    by (simp add: replaceNum2_def)
qed

lemma stripNumSuffix_none:
  assumes "\<forall>a ds. fileKey = a @ CHR ''_'' # ds \<longrightarrow> ds = [] \<or> \<not> set ds \<subseteq> set ''0123456789''"
  shows "stripNumSuffix fileKey = None"
proof (cases "stripNumSuffix fileKey")
  case None
  then show ?thesis .
next
  case (Some p)
  from stripNumSuffix_shape[OF Some] assms show ?thesis by blast
qed

text \<open>
  Claim C10.  Without an active handle for the key, \<open>pauseUpload\<close> and \<open>resumeUpload\<close>
  return the state unchanged.  \<open>cancelUpload\<close>, with or without an active handle,
  leaves no persisted upload record under the key.  For a key \<open>base_d1_d2\<close> with two
  numeric suffixes it also leaves none under \<open>base_d1\<close> and under \<open>base\<close>, and for a
  key \<open>base_d\<close> none under \<open>base\<close>.  It keeps the record of every key that is not a
  prefix of the given key, and when the given key has no numeric suffix it keeps the
  records of all other keys.
\<close>

theorem pause_resume_noop_cancel_clears:
  "(activeUploads w fileKey = None \<longrightarrow> pauseUpload fileKey w = w \<and> resumeUpload fileKey w = w)
   \<and> loadUploadProgress (cancelUpload fileKey w) fileKey = None
   \<and> (ds1 \<noteq> [] \<and> set ds1 \<subseteq> set ''0123456789'' \<and> ds2 \<noteq> [] \<and> set ds2 \<subseteq> set ''0123456789'' \<longrightarrow>
        loadUploadProgress (cancelUpload (base @ ''_'' @ ds1 @ ''_'' @ ds2) w) (base @ ''_'' @ ds1) = None
      \<and> loadUploadProgress (cancelUpload (base @ ''_'' @ ds1 @ ''_'' @ ds2) w) base = None)
   \<and> (ds \<noteq> [] \<and> set ds \<subseteq> set ''0123456789'' \<longrightarrow>
        loadUploadProgress (cancelUpload (base @ ''_'' @ ds) w) base = None)
   \<and> ((\<forall>t. fileKey \<noteq> k' @ t) \<longrightarrow>
        loadUploadProgress (cancelUpload fileKey w) k' = loadUploadProgress w k')
   \<and> ((\<forall>a ds. fileKey = a @ CHR ''_'' # ds \<longrightarrow> ds = [] \<or> \<not> set ds \<subseteq> set ''0123456789'')
        \<and> k' \<noteq> fileKey \<longrightarrow>
        loadUploadProgress (cancelUpload fileKey w) k' = loadUploadProgress w k')"
proof -
  have s1: "ds \<noteq> [] \<and> set ds \<subseteq> set ''0123456789'' \<longrightarrow>
        loadUploadProgress (cancelUpload (base @ ''_'' @ ds) w) base = None"
  proof (intro impI, elim conjE)
    assume h: "ds \<noteq> []" "set ds \<subseteq> set ''0123456789''"
    from stripNumSuffix_digits[OF h, of base] have r: "replaceNum1 (base @ ''_'' @ ds) = base"
      by (simp add: replaceNum1_def)
    have "map_of (uploadStore (cancelUpload (base @ ''_'' @ ds) w)) (replaceNum1 (base @ ''_'' @ ds)) = None"
      by (simp only: cancelUpload_store if_True simp_thms)
    then show "loadUploadProgress (cancelUpload (base @ ''_'' @ ds) w) base = None"
      unfolding loadUploadProgress_def r .
  qed
  have n: "activeUploads w fileKey = None \<longrightarrow> pauseUpload fileKey w = w \<and> resumeUpload fileKey w = w"
    by (simp add: pauseUpload_def resumeUpload_def)
  have c: "loadUploadProgress (cancelUpload fileKey w) fileKey = None"
    by (simp add: loadUploadProgress_def cancelUpload_store)
  have v: "ds1 \<noteq> [] \<and> set ds1 \<subseteq> set ''0123456789'' \<and> ds2 \<noteq> [] \<and> set ds2 \<subseteq> set ''0123456789'' \<longrightarrow>
        loadUploadProgress (cancelUpload (base @ ''_'' @ ds1 @ ''_'' @ ds2) w) (base @ ''_'' @ ds1) = None
      \<and> loadUploadProgress (cancelUpload (base @ ''_'' @ ds1 @ ''_'' @ ds2) w) base = None"
  proof (intro impI, elim conjE)
    assume h: "ds1 \<noteq> []" "set ds1 \<subseteq> set ''0123456789''" "ds2 \<noteq> []" "set ds2 \<subseteq> set ''0123456789''"
    note r = replaceNum_suffixes[OF h, of base]
    have "map_of (uploadStore (cancelUpload (base @ ''_'' @ ds1 @ ''_'' @ ds2) w))
            (replaceNum1 (base @ ''_'' @ ds1 @ ''_'' @ ds2)) = None"
      and "map_of (uploadStore (cancelUpload (base @ ''_'' @ ds1 @ ''_'' @ ds2) w))
            (replaceNum2 (base @ ''_'' @ ds1 @ ''_'' @ ds2)) = None"
      by (simp_all only: cancelUpload_store if_True simp_thms)
    then show "loadUploadProgress (cancelUpload (base @ ''_'' @ ds1 @ ''_'' @ ds2) w) (base @ ''_'' @ ds1) = None
      \<and> loadUploadProgress (cancelUpload (base @ ''_'' @ ds1 @ ''_'' @ ds2) w) base = None"
      unfolding loadUploadProgress_def r by (rule conjI)
  qed
  have o: "(\<forall>t. fileKey \<noteq> k' @ t) \<longrightarrow>
        loadUploadProgress (cancelUpload fileKey w) k' = loadUploadProgress w k'"
  proof
    assume np: "\<forall>t. fileKey \<noteq> k' @ t"
    from np[rule_format, of "[]"] have k0: "k' \<noteq> fileKey" by simp
    from replaceNum1_prefix[of fileKey] obtain t1 where t1: "fileKey = replaceNum1 fileKey @ t1" ..
    from replaceNum2_prefix[of fileKey] obtain t2 where t2: "fileKey = replaceNum2 fileKey @ t2" ..
    have k1: "k' \<noteq> replaceNum1 fileKey"
    proof
      assume eq: "k' = replaceNum1 fileKey"
      have "fileKey = k' @ t1" unfolding eq by (rule t1)
      with np show False by blast
    qed
    have k2: "k' \<noteq> replaceNum2 fileKey"
    proof
      assume eq: "k' = replaceNum2 fileKey"
      have "fileKey = k' @ t2" unfolding eq by (rule t2)
      with np show False by blast
    qed
    from k0 k1 k2 show "loadUploadProgress (cancelUpload fileKey w) k' = loadUploadProgress w k'"
      by (simp add: loadUploadProgress_def cancelUpload_store)
  qed
  have p: "(\<forall>a ds. fileKey = a @ CHR ''_'' # ds \<longrightarrow> ds = [] \<or> \<not> set ds \<subseteq> set ''0123456789'')
        \<and> k' \<noteq> fileKey \<longrightarrow>
        loadUploadProgress (cancelUpload fileKey w) k' = loadUploadProgress w k'"
  proof (intro impI, elim conjE)
    assume h: "\<forall>a ds. fileKey = a @ CHR ''_'' # ds \<longrightarrow> ds = [] \<or> \<not> set ds \<subseteq> set ''0123456789''"
      and ne: "k' \<noteq> fileKey"
    from stripNumSuffix_none[OF h] have "replaceNum1 fileKey = fileKey" "replaceNum2 fileKey = fileKey"
      by (simp_all add: replaceNum1_def replaceNum2_def)
    with ne show "loadUploadProgress (cancelUpload fileKey w) k' = loadUploadProgress w k'"
      by (simp add: loadUploadProgress_def cancelUpload_store)
  qed
  from n c v s1 o p show ?thesis by (intro conjI)
qed

theorem pause_resume_noop_cancel_clears_witness:
  "activeUploads variantWorld ''docs/a.bin_a.bin_20971520_17'' = None
   \<and> pauseUpload ''docs/a.bin_a.bin_20971520_17'' variantWorld = variantWorld
   \<and> resumeUpload ''docs/a.bin_a.bin_20971520_17'' variantWorld = variantWorld
   \<and> map (loadUploadProgress variantWorld)
        [''docs/a.bin_a.bin_20971520_17'', ''docs/a.bin_a.bin_20971520'', ''docs/a.bin_a.bin'',
         ''docs/a.bin'', ''docs/b.bin_b.bin_20971520_17'']
       = [Some staleUpload, Some staleUpload, Some staleUpload, Some staleUpload, Some staleUpload]
   \<and> map (loadUploadProgress (cancelUpload ''docs/a.bin_a.bin_20971520_17'' variantWorld))
        [''docs/a.bin_a.bin_20971520_17'', ''docs/a.bin_a.bin_20971520'', ''docs/a.bin_a.bin'',
         ''docs/b.bin_b.bin_20971520_17'']
       = [None, None, None, Some staleUpload]
   \<and> map (loadUploadProgress (cancelUpload ''docs/a.bin_a.bin_20971520'' variantWorld))
        [''docs/a.bin_a.bin_20971520'', ''docs/a.bin_a.bin'']
       = [None, None]
   \<and> map (loadUploadProgress (cancelUpload ''docs/a.bin_a.bin'' variantWorld))
        [''docs/a.bin_a.bin'', ''docs/a.bin'']
       = [None, Some staleUpload]"
proof -
  let ?k = "''docs/a.bin_a.bin_20971520_17''"
  have a: "activeUploads variantWorld ?k = None" by (simp add: variantWorld_def idleWorld_def)
  have before: "map (loadUploadProgress variantWorld)
        [''docs/a.bin_a.bin_20971520_17'', ''docs/a.bin_a.bin_20971520'', ''docs/a.bin_a.bin'',
         ''docs/a.bin'', ''docs/b.bin_b.bin_20971520_17'']
       = [Some staleUpload, Some staleUpload, Some staleUpload, Some staleUpload, Some staleUpload]"
    by (simp add: variantWorld_def loadUploadProgress_def)
  have d1: "''20971520'' \<noteq> [] \<and> set ''20971520'' \<subseteq> set ''0123456789''
            \<and> ''17'' \<noteq> [] \<and> set ''17'' \<subseteq> set ''0123456789''"
    by simp
  have np: "\<forall>t. ?k \<noteq> ''docs/b.bin_b.bin_20971520_17'' @ t" by simp
  have ev: "stripNumSuffix ''docs/a.bin_a.bin'' = None"
    by (simp add: stripNumSuffix_def isDigit_def Let_def)
  have ns: "\<forall>a ds. ''docs/a.bin_a.bin'' = a @ CHR ''_'' # ds \<longrightarrow> ds = [] \<or> \<not> set ds \<subseteq> set ''0123456789''"
  proof (intro allI impI)
    fix a ds assume eq: "''docs/a.bin_a.bin'' = a @ CHR ''_'' # ds"
    show "ds = [] \<or> \<not> set ds \<subseteq> set ''0123456789''"
    proof (rule ccontr)
      assume "\<not> (ds = [] \<or> \<not> set ds \<subseteq> set ''0123456789'')"
      then have h: "ds \<noteq> []" "set ds \<subseteq> set ''0123456789''" by blast+
      from stripNumSuffix_digits[OF h, of a] have "stripNumSuffix ''docs/a.bin_a.bin'' = Some a"
        unfolding eq .
      with ev show False by simp
    qed
  qed
  have ne: "''docs/a.bin'' \<noteq> ''docs/a.bin_a.bin''" by simp
  note t1 = pause_resume_noop_cancel_clears[of variantWorld ?k "''20971520''" "''17''" "''docs/a.bin_a.bin''"
               "''20971520''" "''docs/b.bin_b.bin_20971520_17''"]
  note t2 = pause_resume_noop_cancel_clears[of variantWorld "''docs/a.bin_a.bin''" "''20971520''" "''17''"
               "''docs/a.bin_a.bin''" "''20971520''" "''docs/a.bin''"]
  from t1 a d1 np have c1:
    "pauseUpload ?k variantWorld = variantWorld \<and> resumeUpload ?k variantWorld = variantWorld"
    "loadUploadProgress (cancelUpload ?k variantWorld) ?k = None"
    "loadUploadProgress (cancelUpload ?k variantWorld) ''docs/a.bin_a.bin_20971520'' = None"
    "loadUploadProgress (cancelUpload ?k variantWorld) ''docs/a.bin_a.bin'' = None"
    "loadUploadProgress (cancelUpload ''docs/a.bin_a.bin_20971520'' variantWorld) ''docs/a.bin_a.bin'' = None"
    "loadUploadProgress (cancelUpload ?k variantWorld) ''docs/b.bin_b.bin_20971520_17''
       = loadUploadProgress variantWorld ''docs/b.bin_b.bin_20971520_17''"
    by simp_all
  from pause_resume_noop_cancel_clears[of variantWorld "''docs/a.bin_a.bin_20971520''"]
  have c2: "loadUploadProgress (cancelUpload ''docs/a.bin_a.bin_20971520'' variantWorld)
              ''docs/a.bin_a.bin_20971520'' = None"
    by (rule conjunct2[THEN conjunct1])
  from t2 ns ne have c3:
    "loadUploadProgress (cancelUpload ''docs/a.bin_a.bin'' variantWorld) ''docs/a.bin_a.bin'' = None"
    "loadUploadProgress (cancelUpload ''docs/a.bin_a.bin'' variantWorld) ''docs/a.bin''
       = loadUploadProgress variantWorld ''docs/a.bin''"
    by blast+
  from before have b5: "loadUploadProgress variantWorld ''docs/b.bin_b.bin_20971520_17'' = Some staleUpload"
    and b4: "loadUploadProgress variantWorld ''docs/a.bin'' = Some staleUpload"
    by simp_all
  show ?thesis
    using a before c1 c2 c3 b5 b4 by (simp only: list.map simp_thms)
qed

section \<open>The chunk table of a download\<close>

lemma CHUNK_SIZE_val: "int CHUNK_SIZE = 5242880"
  by (simp add: CHUNK_SIZE_def)

lemma covers_le: "covers lo hi cs \<Longrightarrow> lo \<le> hi"
proof (induction cs arbitrary: lo)
  case Nil
  then show ?case by simp
next
  case (Cons c cs)
  from Cons.prems have "covers (chunk_end c + 1) hi cs" and "lo \<le> chunk_end c" by auto
  with Cons.IH[of "chunk_end c + 1"] show ?case by simp
qed

lemma mkChunk_start [simp]: "chunk_start (mkChunk t i) = int i * 5242880"
  by (simp add: mkChunk_def Let_def CHUNK_SIZE_val)

lemma mkChunk_end [simp]: "chunk_end (mkChunk t i) = min ((int i + 1) * 5242880) t - 1"
  by (simp add: mkChunk_def Let_def CHUNK_SIZE_val algebra_simps)

lemma mkChunk_downloaded [simp]: "\<not> downloaded (mkChunk t i)"
  by (simp add: mkChunk_def Let_def)

lemma ceil_bounds:
  "int n = (t + 5242879) div 5242880
   \<Longrightarrow> int n * 5242880 \<le> t + 5242879 \<and> t + 5242879 < int n * 5242880 + 5242880"
  by presburger

lemma covers_mkChunks_from:
  "j \<le> n \<Longrightarrow> int n = (t + 5242879) div 5242880 \<Longrightarrow> 0 \<le> t
   \<Longrightarrow> covers (if j = n then t else int j * 5242880) t (map (mkChunk t) [j..<n])"
proof (induction "n - j" arbitrary: j)
  case 0
  then show ?case by simp
next
  case (Suc d)
  then have lt: "j < n" and d: "d = n - Suc j" by auto
  note cb = ceil_bounds[OF Suc.prems(2)]
  have ih: "covers (if Suc j = n then t else int (Suc j) * 5242880) t (map (mkChunk t) [Suc j..<n])"
    using Suc.hyps(1)[OF d] lt Suc.prems by simp
  have jlt: "int j * 5242880 < t" using lt cb by linarith
  have e: "(if Suc j = n then t else int (Suc j) * 5242880) = min ((int j + 1) * 5242880) t"
  proof (cases "Suc j = n")
    case True
    then have "int n = int j + 1" by simp
    then have "t \<le> (int j + 1) * 5242880" using cb by (auto simp: algebra_simps)
    with True show ?thesis by simp
  next
    case False
    then have "Suc j < n" using lt by simp
    then have "int j + 2 \<le> int n" by simp
    then have "(int j + 2) * 5242880 \<le> int n * 5242880" by (rule mult_right_mono) simp
    then have "int (Suc j) * 5242880 < t" using cb by (simp add: algebra_simps)
    with False show ?thesis by (simp add: algebra_simps)
  qed
  have "covers (int j * 5242880) t (mkChunk t j # map (mkChunk t) [Suc j..<n])"
    using ih jlt e by simp
  with lt show ?case
    by (simp add: upt_conv_Cons del: upt_Suc)
qed

lemma covers_mkChunks: "0 \<le> t \<Longrightarrow> covers 0 t (mkChunks t)"
proof -
  assume t: "0 \<le> t"
  define n where "n = nat ((t + 5242879) div 5242880)"
  have n: "int n = (t + 5242879) div 5242880" using t by (simp add: n_def)
  have c: "covers (if 0 = n then t else int 0 * 5242880) t (map (mkChunk t) [0..<n])"
    by (rule covers_mkChunks_from[OF _ n t]) simp
  have m: "mkChunks t = map (mkChunk t) [0..<n]"
    by (simp add: mkChunks_def Let_def CHUNK_SIZE_val n_def add.commute)
  show ?thesis
  proof (cases "n = 0")
    case True
    then have "t = 0" using ceil_bounds[OF n] t by linarith
    with True m show ?thesis by simp
  next
    case False
    with c m show ?thesis by simp
  qed
qed

lemma chunkFormula_mkChunks: "chunkFormula t (mkChunks t)"
  by (simp add: chunkFormula_def rangesOf_def mkChunks_def Let_def)

lemma completedBytes_mkChunks: "completedBytes (mkChunks t) = 0"
  by (simp add: completedBytes_def mkChunks_def Let_def filter_map o_def)

lemma downloadInv_fresh:
  "0 \<le> t \<Longrightarrow> downloadInv \<lparr>dp_totalSize = t, downloadedSize = 0, chunks = mkChunks t,
                               dp_fileName = fname, dp_key = k, dp_lastModified = lm\<rparr>"
  by (simp add: downloadInv_def covers_mkChunks chunkFormula_mkChunks completedBytes_mkChunks)

lemma rangesOf_mark:
  "i < length cs \<Longrightarrow> rangesOf (cs[i := (cs ! i)\<lparr>downloaded := True\<rparr>]) = rangesOf cs"
  by (simp add: rangesOf_def list_eq_iff_nth_eq nth_list_update)

lemma covers_rangesOf: "rangesOf cs = rangesOf cs' \<Longrightarrow> covers lo hi cs = covers lo hi cs'"
proof (induction cs arbitrary: cs' lo)
  case Nil
  then show ?case by (simp add: rangesOf_def)
next
  case (Cons c cs)
  then obtain c' cs'' where "cs' = c' # cs''" by (cases cs') (auto simp: rangesOf_def)
  with Cons show ?case by (auto simp: rangesOf_def)
qed

lemma completedBytes_mark:
  "i < length cs \<Longrightarrow> \<not> downloaded (cs ! i)
   \<Longrightarrow> completedBytes (cs[i := (cs ! i)\<lparr>downloaded := True\<rparr>])
       = completedBytes cs + (chunk_end (cs ! i) - chunk_start (cs ! i) + 1)"
proof (induction cs arbitrary: i)
  case Nil
  then show ?case by simp
next
  case (Cons c cs)
  then show ?case
    by (cases i) (auto simp: completedBytes_def)
qed

lemma downloadInv_markDownloaded:
  "downloadInv p \<Longrightarrow> index < length (chunks p) \<Longrightarrow> \<not> downloaded (chunks p ! index)
   \<Longrightarrow> downloadInv (markDownloaded index p)"
  using covers_rangesOf[OF rangesOf_mark, of index "chunks p" 0 "dp_totalSize p"]
  by (simp add: downloadInv_def markDownloaded_def Let_def completedBytes_mark chunkFormula_def rangesOf_mark)

lemma markDownloaded_fields [simp]:
  "dp_totalSize (markDownloaded i p) = dp_totalSize p"
  "length (chunks (markDownloaded i p)) = length (chunks p)"
  "dp_lastModified (markDownloaded i p) = dp_lastModified p"
  by (simp_all add: markDownloaded_def Let_def)

lemma rangesOf_markDownloaded [simp]:
  "i < length (chunks p) \<Longrightarrow> rangesOf (chunks (markDownloaded i p)) = rangesOf (chunks p)"
  by (simp add: markDownloaded_def Let_def rangesOf_mark)


section \<open>The two loops of resumableDownload\<close>

lemma withS3_getObject:
  "withS3 (getObject ok k s e) w =
     (w\<lparr>s3 := logRequest (GetObject k s e) (s3 w)\<rparr>,
      if \<not> ok then Inl NetworkFailure
      else case objects (s3 w) k of
             None \<Rightarrow> Inl NoSuchKey
           | Some ob \<Rightarrow>
               if s < 0 \<or> e < s \<or> int (length (content ob)) \<le> s then Inl InvalidRange
               else Inr (take (nat (e - s + 1)) (drop (nat s) (content ob))))"
  by (simp add: withS3_def getObject_def Let_def logRequest_def split: option.splits)

lemma withS3_headObject:
  "withS3 (headObject ok k) w =
     (w\<lparr>s3 := logRequest (HeadObject k) (s3 w)\<rparr>,
      if \<not> ok then Inl NetworkFailure
      else case objects (s3 w) k of
             None \<Rightarrow> Inl NoSuchKey
           | Some ob \<Rightarrow> Inr (int (length (content ob)), modified ob))"
  by (simp add: withS3_def headObject_def Let_def logRequest_def split: option.splits)

lemma load_saveDownloadProgress [simp]:
  "loadDownloadProgress (saveDownloadProgress fk p w) fk' =
     (if fk' = fk then Some p else loadDownloadProgress w fk')"
  by (simp add: loadDownloadProgress_def saveDownloadProgress_def update_conv)

lemma load_clearDownloadProgress [simp]:
  "loadDownloadProgress (clearDownloadProgress fk w) fk' =
     (if fk' = fk then None else loadDownloadProgress w fk')"
  by (simp add: loadDownloadProgress_def clearDownloadProgress_def delete_conv)

lemma load_s3_update [simp]: "loadDownloadProgress (w\<lparr>s3 := s\<rparr>) fk = loadDownloadProgress w fk"
  by (simp add: loadDownloadProgress_def)

lemma objects_logRequest [simp]: "objects (logRequest rq s) = objects s"
  by (simp add: logRequest_def)

lemma s3_saveDownloadProgress [simp]: "s3 (saveDownloadProgress fk p w) = s3 w"
  by (simp add: saveDownloadProgress_def)

lemma s3_clearDownloadProgress [simp]: "s3 (clearDownloadProgress fk w) = s3 w"
  by (simp add: clearDownloadProgress_def)

text \<open>What the first loop keeps: the invariant, the ranges, and what is stored.\<close>

lemma fetchChunks_keeps:
  "fetchChunks e k fk idxs progress got w = (w', progress', got', failed)
   \<Longrightarrow> \<forall>i\<in>set idxs. i < length (chunks progress)
   \<Longrightarrow> downloadInv progress
   \<Longrightarrow> downloadInv progress' \<and> dp_totalSize progress' = dp_totalSize progress
       \<and> rangesOf (chunks progress') = rangesOf (chunks progress)
       \<and> objects (s3 w') = objects (s3 w)
       \<and> (loadDownloadProgress w' fk = loadDownloadProgress w fk
          \<or> (\<exists>p. loadDownloadProgress w' fk = Some p \<and> downloadInv p
                  \<and> dp_totalSize p = dp_totalSize progress))"
proof (induction idxs arbitrary: progress got w)
  case Nil
  then show ?case by simp
next
  case (Cons i idxs)
  let ?c = "chunks progress ! i"
  have i: "i < length (chunks progress)" using Cons.prems(2) by simp
  show ?case
  proof (cases "downloaded ?c")
    case True
    with Cons.prems have "fetchChunks e k fk idxs progress got w = (w', progress', got', failed)"
      by (simp add: Let_def)
    from Cons.IH[OF this] Cons.prems show ?thesis by simp
  next
    case False
    let ?w1 = "w\<lparr>s3 := logRequest (GetObject k (chunk_start ?c) (chunk_end ?c)) (s3 w)\<rparr>"
    obtain res where res: "withS3 (getObject (chunkOk e i) k (chunk_start ?c) (chunk_end ?c)) w = (?w1, res)"
      by (simp add: withS3_getObject)
    show ?thesis
    proof (cases res)
      case (Inl err)
      with Cons.prems False res show ?thesis by (auto simp: Let_def)
    next
      case (Inr body)
      let ?p = "markDownloaded i progress"
      let ?w2 = "saveDownloadProgress fk ?p ?w1"
      from Cons.prems(1) False res Inr
      have run: "fetchChunks e k fk idxs ?p (got(i \<mapsto> body)) ?w2 = (w', progress', got', failed)"
        by (simp add: Let_def)
      have inv: "downloadInv ?p" using downloadInv_markDownloaded[OF Cons.prems(3) i False] .
      have idx: "\<forall>j\<in>set idxs. j < length (chunks ?p)" using Cons.prems(2) by simp
      from Cons.IH[OF run idx inv] i show ?thesis
        using inv by auto
    qed
  qed
qed

text \<open>What the first loop collects: every stored body is the chunk's range of the object.\<close>

lemma fetchChunks_got:
  "fetchChunks e k fk idxs progress got w = (w', progress', got', failed)
   \<Longrightarrow> \<forall>i\<in>set idxs. i < length (chunks progress)
   \<Longrightarrow> objects (s3 w) k = Some ob
   \<Longrightarrow> \<forall>i b. got i = Some b \<longrightarrow> b = rangeBytes (content ob) (chunks progress ! i)
   \<Longrightarrow> \<forall>i b. got' i = Some b \<longrightarrow> b = rangeBytes (content ob) (chunks progress' ! i)"
proof (induction idxs arbitrary: progress got w)
  case Nil
  then show ?case by simp
next
  case (Cons i idxs)
  let ?c = "chunks progress ! i"
  have i: "i < length (chunks progress)" using Cons.prems(2) by simp
  show ?case
  proof (cases "downloaded ?c")
    case True
    with Cons.prems have "fetchChunks e k fk idxs progress got w = (w', progress', got', failed)"
      by (simp add: Let_def)
    from Cons.IH[OF this] Cons.prems show ?thesis by simp
  next
    case False
    let ?w1 = "w\<lparr>s3 := logRequest (GetObject k (chunk_start ?c) (chunk_end ?c)) (s3 w)\<rparr>"
    obtain res where res: "withS3 (getObject (chunkOk e i) k (chunk_start ?c) (chunk_end ?c)) w = (?w1, res)"
      by (simp add: withS3_getObject)
    show ?thesis
    proof (cases res)
      case (Inl err)
      with Cons.prems False res show ?thesis by (simp add: Let_def)
    next
      case (Inr body)
      let ?p = "markDownloaded i progress"
      let ?w2 = "saveDownloadProgress fk ?p ?w1"
      from Cons.prems(1) False res Inr
      have run: "fetchChunks e k fk idxs ?p (got(i \<mapsto> body)) ?w2 = (w', progress', got', failed)"
        by (simp add: Let_def)
      have body: "body = rangeBytes (content ob) ?c"
        using res Inr Cons.prems(3)
        by (auto simp: withS3_getObject rangeBytes_def split: if_splits)
      have same': "\<And>j. rangeBytes (content ob) (chunks ?p ! j) = rangeBytes (content ob) (chunks progress ! j)"
        using i by (auto simp: markDownloaded_def Let_def rangeBytes_def nth_list_update)
      have idx: "\<forall>j\<in>set idxs. j < length (chunks ?p)" using Cons.prems(2) by simp
      have ob: "objects (s3 ?w2) k = Some ob" using Cons.prems(3) by simp
      have got: "\<forall>j b. (got(i \<mapsto> body)) j = Some b \<longrightarrow> b = rangeBytes (content ob) (chunks ?p ! j)"
        using Cons.prems(4) body by (auto simp: same')
      from Cons.IH[OF run idx ob got] show ?thesis .
    qed
  qed
qed

lemma assemble_result:
  "assemble e k idxs progress got acc w = (w', Inr allChunks)
   \<Longrightarrow> objects (s3 w) k = Some ob
   \<Longrightarrow> \<forall>i b. got i = Some b \<longrightarrow> b = rangeBytes (content ob) (chunks progress ! i)
   \<Longrightarrow> allChunks = acc @ map (\<lambda>i. rangeBytes (content ob) (chunks progress ! i)) idxs"
proof (induction idxs arbitrary: acc w)
  case Nil
  then show ?case by simp
next
  case (Cons i idxs)
  show ?case
  proof (cases "got i")
    case (Some body)
    with Cons.prems have "assemble e k idxs progress got (acc @ [body]) w = (w', Inr allChunks)"
      by simp
    from Cons.IH[OF this Cons.prems(2,3)] Some Cons.prems(3) show ?thesis by simp
  next
    case None
    let ?c = "chunks progress ! i"
    let ?w1 = "w\<lparr>s3 := logRequest (GetObject k (chunk_start ?c) (chunk_end ?c)) (s3 w)\<rparr>"
    obtain res where res: "withS3 (getObject (refetchOk e i) k (chunk_start ?c) (chunk_end ?c)) w = (?w1, res)"
      by (simp add: withS3_getObject)
    show ?thesis
    proof (cases res)
      case (Inl err)
      with Cons.prems None res show ?thesis by (simp add: Let_def)
    next
      case (Inr body)
      with Cons.prems None res
      have run: "assemble e k idxs progress got (acc @ [body]) ?w1 = (w', Inr allChunks)"
        by (simp add: Let_def)
      have body: "body = rangeBytes (content ob) ?c"
        using res Inr Cons.prems(2)
        by (auto simp: withS3_getObject rangeBytes_def split: if_splits)
      have ob: "objects (s3 ?w1) k = Some ob" using Cons.prems(2) by simp
      from Cons.IH[OF run ob Cons.prems(3)] body show ?thesis by simp
    qed
  qed
qed

lemma assemble_keeps:
  "assemble e k idxs progress got acc w = (w', res)
   \<Longrightarrow> objects (s3 w') = objects (s3 w) \<and> downloadStore w' = downloadStore w"
proof (induction idxs arbitrary: acc w)
  case Nil
  then show ?case by simp
next
  case (Cons i idxs)
  then show ?case
    by (auto simp: withS3_getObject Let_def split: option.splits sum.splits if_splits)
qed

text \<open>The ranges of a partition, concatenated, are the bytes between its bounds.\<close>

lemma concat_covers:
  "covers lo hi cs \<Longrightarrow> 0 \<le> lo
   \<Longrightarrow> concat (map (rangeBytes bs) cs) = take (nat (hi - lo)) (drop (nat lo) bs)"
proof (induction cs arbitrary: lo)
  case Nil
  then show ?case by simp
next
  case (Cons c cs)
  from Cons.prems have s: "chunk_start c = lo" and le: "lo \<le> chunk_end c"
    and rest: "covers (chunk_end c + 1) hi cs" by auto
  have hi: "chunk_end c + 1 \<le> hi" using covers_le[OF rest] .
  have ih: "concat (map (rangeBytes bs) cs) = take (nat (hi - (chunk_end c + 1))) (drop (nat (chunk_end c + 1)) bs)"
    using Cons.IH[OF rest] Cons.prems(2) le by simp
  let ?a = "nat (chunk_end c - lo + 1)" and ?b = "nat (hi - (chunk_end c + 1))"
  have n1: "nat (chunk_end c + 1) = ?a + nat lo"
    using Cons.prems(2) le by simp
  have n2: "nat (hi - lo) = ?a + ?b"
    using hi le by simp
  have "take (nat (hi - lo)) (drop (nat lo) bs)
          = take ?a (drop (nat lo) bs) @ take ?b (drop ?a (drop (nat lo) bs))"
    unfolding n2 by (rule take_add)
  also have "drop ?a (drop (nat lo) bs) = drop (nat (chunk_end c + 1)) bs"
    unfolding n1 by (rule drop_drop)
  finally have "take (nat (hi - lo)) (drop (nat lo) bs) = rangeBytes bs c @ concat (map (rangeBytes bs) cs)"
    by (simp add: ih rangeBytes_def[of bs c] s)
  then show ?case by simp
qed

lemma covers_mem:
  "covers lo hi cs \<Longrightarrow> c \<in> set cs
   \<Longrightarrow> lo \<le> chunk_start c \<and> chunk_start c \<le> chunk_end c \<and> chunk_end c < hi"
proof (induction cs arbitrary: lo)
  case Nil
  then show ?case by simp
next
  case (Cons a cs)
  from Cons.prems have rest: "covers (chunk_end a + 1) hi cs" and a: "chunk_start a = lo" "lo \<le> chunk_end a"
    by auto
  show ?case
  proof (cases "c = a")
    case True
    with a covers_le[OF rest] show ?thesis by simp
  next
    case False
    with Cons.prems have "c \<in> set cs" by simp
    from Cons.IH[OF rest this] a show ?thesis by simp
  qed
qed


section \<open>resumableDownload as a whole\<close>

lemma storedFor_imp_inv: "storedFor w fk bs \<Longrightarrow> storedDownloadInv w fk"
  by (auto simp: storedFor_def storedDownloadInv_def split: option.splits)

lemma map_rangeBytes_nth:
  "map (\<lambda>i. rangeBytes bs (cs ! i)) [0..<length cs] = map (rangeBytes bs) cs"
proof -
  have "map (\<lambda>i. rangeBytes bs (cs ! i)) [0..<length cs] = map (rangeBytes bs) (map ((!) cs) [0..<length cs])"
    by (simp only: map_map o_def)
  then show ?thesis by (simp only: map_nth)
qed

lemma resumableDownload_early:
  "\<not> (configured w \<and> headOk e \<and> objects (s3 w) k \<noteq> None)
   \<Longrightarrow> resumableDownload e k fname w =
       (if \<not> configured w then (w, Inl S3NotConfigured)
        else (w\<lparr>s3 := logRequest (HeadObject k) (s3 w)\<rparr>,
              Inl (if \<not> headOk e then NetworkFailure else NoSuchKey)))"
  unfolding resumableDownload_def
  by (cases "configured w"; cases "headOk e"; cases "objects (s3 w) k")
     (simp_all add: withS3_headObject)


text \<open>
  One invocation, whatever fails in it: the stored record keeps its invariant, the
  objects are untouched, and bytes that are returned are the object's content.
\<close>

lemma resumableDownload_run:
  assumes run: "resumableDownload e k fname w = (w', res)"
    and inv: "storedDownloadInv w (downloadFileKey k fname)"
  shows "storedDownloadInv w' (downloadFileKey k fname) \<and> objects (s3 w') = objects (s3 w)
         \<and> configured w' = configured w
         \<and> (\<forall>ob. objects (s3 w) k = Some ob \<and> storedFor w (downloadFileKey k fname) (content ob)
               \<longrightarrow> storedFor w' (downloadFileKey k fname) (content ob)
                   \<and> (\<forall>r. res = Inr r \<longrightarrow> r = content ob))"
proof (cases "configured w \<and> headOk e \<and> objects (s3 w) k \<noteq> None")
  case False
  from run resumableDownload_early[OF False, of fname]
  have "(w' = w \<or> w' = w\<lparr>s3 := logRequest (HeadObject k) (s3 w)\<rparr>) \<and> (\<exists>err. res = Inl err)"
    by (auto split: if_splits)
  with inv show ?thesis
    by (auto simp: storedDownloadInv_def storedFor_def)
next
  case True
  then obtain ob where conf: "configured w" and hok: "headOk e" and ob: "objects (s3 w) k = Some ob"
    by auto
  let ?fk = "downloadFileKey k fname"
  let ?T = "int (length (content ob))"
  let ?w1 = "w\<lparr>s3 := logRequest (HeadObject k) (s3 w)\<rparr>"
  let ?fresh = "\<lparr>dp_totalSize = ?T, downloadedSize = 0, chunks = mkChunks ?T,
                 dp_fileName = fname, dp_key = k, dp_lastModified = modified ob\<rparr>"
  define reuse where
    "reuse = (case loadDownloadProgress w ?fk of
                Some p \<Rightarrow> dp_lastModified p = modified ob | None \<Rightarrow> False)"
  define progress where
    "progress = (if reuse then the (loadDownloadProgress w ?fk) else ?fresh)"
  define w2 where
    "w2 = (if loadDownloadProgress w ?fk \<noteq> None \<and> \<not> reuse then clearDownloadProgress ?fk ?w1 else ?w1)"
  obtain w3 progress1 got failed where
    fetch: "fetchChunks e k ?fk [0..<length (chunks progress)] progress Map.empty w2
              = (w3, progress1, got, failed)"
    by (cases "fetchChunks e k ?fk [0..<length (chunks progress)] progress Map.empty w2") auto
  obtain w4 asm where
    asm: "assemble e k [0..<length (chunks progress1)] progress1 got [] w3 = (w4, asm)"
    by (cases "assemble e k [0..<length (chunks progress1)] progress1 got [] w3") auto
  have unfold: "resumableDownload e k fname w =
      (case failed of
         Some err \<Rightarrow> (w3, Inl err)
       | None \<Rightarrow> (case asm of
                    Inl err \<Rightarrow> (w4, Inl err)
                  | Inr allChunks \<Rightarrow> (clearDownloadProgress ?fk w4, Inr (concat allChunks))))"
    using conf hok ob fetch asm
    by (auto simp: resumableDownload_def Let_def withS3_headObject reuse_def progress_def w2_def
             split: option.splits sum.splits)
  have pinv: "downloadInv progress"
    using inv by (auto simp: progress_def reuse_def storedDownloadInv_def downloadInv_fresh split: option.splits)
  have w2obj: "objects (s3 w2) = objects (s3 w)" and w2conf: "configured w2 = configured w"
    by (simp_all add: w2_def clearDownloadProgress_def)
  have w2load: "loadDownloadProgress w2 ?fk = (if reuse then Some progress else None)"
    by (auto simp: w2_def reuse_def progress_def split: option.splits)
  have idx: "\<forall>i\<in>set [0..<length (chunks progress)]. i < length (chunks progress)" by simp
  note keeps = fetchChunks_keeps[OF fetch idx pinv]
  have w3inv: "storedDownloadInv w3 ?fk"
    using keeps w2load pinv by (auto simp: storedDownloadInv_def split: if_splits)
  have w3obj: "objects (s3 w3) = objects (s3 w)" using keeps w2obj by simp
  note akeeps = assemble_keeps[OF asm]
  have w4inv: "storedDownloadInv w4 ?fk"
    using w3inv akeeps by (simp add: storedDownloadInv_def loadDownloadProgress_def)
  have cleared: "storedDownloadInv (clearDownloadProgress ?fk w4) ?fk"
    by (simp add: storedDownloadInv_def)
  have confs: "configured w3 = configured w \<and> configured w4 = configured w"
  proof -
    have a: "\<And>idxs p g v v' p' g' f. fetchChunks e k ?fk idxs p g v = (v', p', g', f) \<Longrightarrow> configured v' = configured v"
    proof -
      fix idxs p g v v' p' g' f
      show "fetchChunks e k ?fk idxs p g v = (v', p', g', f) \<Longrightarrow> configured v' = configured v"
        by (induction idxs arbitrary: p g v)
           (auto simp: Let_def withS3_getObject saveDownloadProgress_def split: if_splits sum.splits)
    qed
    have b: "\<And>idxs p g acc v v' r. assemble e k idxs p g acc v = (v', r) \<Longrightarrow> configured v' = configured v"
    proof -
      fix idxs p g acc v v' r
      show "assemble e k idxs p g acc v = (v', r) \<Longrightarrow> configured v' = configured v"
        by (induction idxs arbitrary: acc v)
           (auto simp: Let_def withS3_getObject split: if_splits sum.splits option.splits)
    qed
    from a[OF fetch] b[OF asm] w2conf show ?thesis by simp
  qed
  have part1: "storedDownloadInv w' ?fk \<and> objects (s3 w') = objects (s3 w) \<and> configured w' = configured w"
    using run unfold w3inv w3obj w4inv akeeps cleared confs
    by (auto simp: clearDownloadProgress_def split: option.splits sum.splits)
  have part2: "storedFor w' ?fk (content ob) \<and> (\<forall>r. res = Inr r \<longrightarrow> r = content ob)"
    if sf: "storedFor w ?fk (content ob)"
  proof -
    have ptot: "dp_totalSize progress = ?T"
      using sf by (auto simp: progress_def reuse_def storedFor_def split: option.splits)
    have w3for: "storedFor w3 ?fk (content ob)"
      using keeps w2load pinv ptot by (auto simp: storedFor_def split: if_splits)
    have w4for: "storedFor w4 ?fk (content ob)"
      using w3for akeeps by (simp add: storedFor_def loadDownloadProgress_def)
    have clearedfor: "storedFor (clearDownloadProgress ?fk w4) ?fk (content ob)"
      by (simp add: storedFor_def)
    have bytes: "concat allChunks = content ob" if "asm = Inr allChunks" for allChunks
    proof -
      have g0: "\<forall>i b. Map.empty i = Some b \<longrightarrow> b = rangeBytes (content ob) (chunks progress ! i)"
        by simp
      have ob2: "objects (s3 w2) k = Some ob" using ob w2obj by simp
      have got1: "\<forall>i b. got i = Some b \<longrightarrow> b = rangeBytes (content ob) (chunks progress1 ! i)"
        using fetchChunks_got[OF fetch idx ob2 g0] .
      have ob3: "objects (s3 w3) k = Some ob" using ob w3obj by simp
      have "allChunks = [] @ map (\<lambda>i. rangeBytes (content ob) (chunks progress1 ! i)) [0..<length (chunks progress1)]"
        using assemble_result[OF asm[unfolded that] ob3 got1] .
      then have "allChunks = map (rangeBytes (content ob)) (chunks progress1)"
        by (simp add: map_rangeBytes_nth)
      moreover have "covers 0 ?T (chunks progress1)"
        using keeps ptot by (auto simp: downloadInv_def)
      ultimately show ?thesis
        using concat_covers[of 0 ?T "chunks progress1" "content ob"] by simp
    qed
    show ?thesis
      using run unfold w3for w4for clearedfor bytes
      by (auto split: option.splits sum.splits)
  qed
  from part1 part2 ob show ?thesis by auto
qed

lemma fetchChunks_ok:
  "fetchChunks e k fk idxs progress got w = (w', progress', got', failed)
   \<Longrightarrow> \<forall>i. chunkOk e i
   \<Longrightarrow> objects (s3 w) k = Some ob
   \<Longrightarrow> \<forall>i\<in>set idxs. i < length (chunks progress)
   \<Longrightarrow> covers 0 (int (length (content ob))) (chunks progress)
   \<Longrightarrow> failed = None"
proof (induction idxs arbitrary: progress got w)
  case Nil
  then show ?case by simp
next
  case (Cons i idxs)
  let ?c = "chunks progress ! i"
  have i: "i < length (chunks progress)" using Cons.prems(4) by simp
  then have mem: "?c \<in> set (chunks progress)" by simp
  note rng = covers_mem[OF Cons.prems(5) mem]
  show ?case
  proof (cases "downloaded ?c")
    case True
    with Cons.prems have "fetchChunks e k fk idxs progress got w = (w', progress', got', failed)"
      by (simp add: Let_def)
    from Cons.IH[OF this] Cons.prems show ?thesis by simp
  next
    case False
    let ?w1 = "w\<lparr>s3 := logRequest (GetObject k (chunk_start ?c) (chunk_end ?c)) (s3 w)\<rparr>"
    let ?body = "take (nat (chunk_end ?c - chunk_start ?c + 1)) (drop (nat (chunk_start ?c)) (content ob))"
    have res: "withS3 (getObject (chunkOk e i) k (chunk_start ?c) (chunk_end ?c)) w = (?w1, Inr ?body)"
      using Cons.prems(2,3) rng by (simp add: withS3_getObject)
    let ?p = "markDownloaded i progress"
    let ?w2 = "saveDownloadProgress fk ?p ?w1"
    from Cons.prems(1) False res
    have run: "fetchChunks e k fk idxs ?p (got(i \<mapsto> ?body)) ?w2 = (w', progress', got', failed)"
      by (simp add: Let_def)
    have idx: "\<forall>j\<in>set idxs. j < length (chunks ?p)" using Cons.prems(4) by simp
    have ob: "objects (s3 ?w2) k = Some ob" using Cons.prems(3) by simp
    have cov: "covers 0 (int (length (content ob))) (chunks ?p)"
      using covers_rangesOf[OF rangesOf_markDownloaded[OF i]] Cons.prems(5) by simp
    from Cons.IH[OF run Cons.prems(2) ob idx cov] show ?thesis .
  qed
qed

lemma assemble_ok:
  "\<forall>i. refetchOk e i
   \<Longrightarrow> objects (s3 w) k = Some ob
   \<Longrightarrow> \<forall>i\<in>set idxs. i < length (chunks progress)
   \<Longrightarrow> covers 0 (int (length (content ob))) (chunks progress)
   \<Longrightarrow> \<exists>w' allChunks. assemble e k idxs progress got acc w = (w', Inr allChunks)"
proof (induction idxs arbitrary: acc w)
  case Nil
  then show ?case by simp
next
  case (Cons i idxs)
  let ?c = "chunks progress ! i"
  have i: "i < length (chunks progress)" using Cons.prems(3) by simp
  then have mem: "?c \<in> set (chunks progress)" by simp
  note rng = covers_mem[OF Cons.prems(4) mem]
  have idx: "\<forall>j\<in>set idxs. j < length (chunks progress)" using Cons.prems(3) by simp
  show ?case
  proof (cases "got i")
    case (Some body)
    with Cons.IH[OF Cons.prems(1,2) idx Cons.prems(4), of "acc @ [body]"] show ?thesis by simp
  next
    case None
    let ?w1 = "w\<lparr>s3 := logRequest (GetObject k (chunk_start ?c) (chunk_end ?c)) (s3 w)\<rparr>"
    let ?body = "take (nat (chunk_end ?c - chunk_start ?c + 1)) (drop (nat (chunk_start ?c)) (content ob))"
    have res: "withS3 (getObject (refetchOk e i) k (chunk_start ?c) (chunk_end ?c)) w = (?w1, Inr ?body)"
      using Cons.prems(1,2) rng by (simp add: withS3_getObject)
    have ob: "objects (s3 ?w1) k = Some ob" using Cons.prems(2) by simp
    from Cons.IH[OF Cons.prems(1) ob idx Cons.prems(4), of "acc @ [?body]"] None res
    show ?thesis by (simp add: Let_def)
  qed
qed

text \<open>When no request fails, the invocation returns.\<close>

lemma resumableDownload_returns:
  assumes conf: "configured w" and ob: "objects (s3 w) k = Some ob"
    and sf: "storedFor w (downloadFileKey k fname) (content ob)"
    and ok: "headOk e" "\<forall>i. chunkOk e i" "\<forall>i. refetchOk e i"
  shows "\<exists>r. snd (resumableDownload e k fname w) = Inr r"
proof -
  let ?fk = "downloadFileKey k fname"
  let ?T = "int (length (content ob))"
  let ?w1 = "w\<lparr>s3 := logRequest (HeadObject k) (s3 w)\<rparr>"
  let ?fresh = "\<lparr>dp_totalSize = ?T, downloadedSize = 0, chunks = mkChunks ?T,
                 dp_fileName = fname, dp_key = k, dp_lastModified = modified ob\<rparr>"
  define reuse where
    "reuse = (case loadDownloadProgress w ?fk of
                Some p \<Rightarrow> dp_lastModified p = modified ob | None \<Rightarrow> False)"
  define progress where
    "progress = (if reuse then the (loadDownloadProgress w ?fk) else ?fresh)"
  define w2 where
    "w2 = (if loadDownloadProgress w ?fk \<noteq> None \<and> \<not> reuse then clearDownloadProgress ?fk ?w1 else ?w1)"
  obtain w3 progress1 got failed where
    fetch: "fetchChunks e k ?fk [0..<length (chunks progress)] progress Map.empty w2
              = (w3, progress1, got, failed)"
    by (cases "fetchChunks e k ?fk [0..<length (chunks progress)] progress Map.empty w2") auto
  have pinv: "downloadInv progress \<and> dp_totalSize progress = ?T"
    using sf by (auto simp: progress_def reuse_def storedFor_def downloadInv_fresh split: option.splits)
  have ob2: "objects (s3 w2) k = Some ob" using ob by (simp add: w2_def)
  have idx: "\<forall>i\<in>set [0..<length (chunks progress)]. i < length (chunks progress)" by simp
  have cov: "covers 0 ?T (chunks progress)" using pinv by (auto simp: downloadInv_def)
  have none: "failed = None" using fetchChunks_ok[OF fetch ok(2) ob2 idx cov] .
  note keeps = fetchChunks_keeps[OF fetch idx conjunct1[OF pinv]]
  have ob3: "objects (s3 w3) k = Some ob" using keeps ob2 by simp
  have cov1: "covers 0 ?T (chunks progress1)" using keeps pinv by (auto simp: downloadInv_def)
  have idx1: "\<forall>i\<in>set [0..<length (chunks progress1)]. i < length (chunks progress1)" by simp
  obtain w4 allChunks where
    asm: "assemble e k [0..<length (chunks progress1)] progress1 got [] w3 = (w4, Inr allChunks)"
    using assemble_ok[OF ok(3) ob3 idx1 cov1] by blast
  have "resumableDownload e k fname w = (clearDownloadProgress ?fk w4, Inr (concat allChunks))"
    using conf ok(1) ob fetch asm none
    by (auto simp: resumableDownload_def Let_def withS3_headObject reuse_def progress_def w2_def
             split: option.splits sum.splits)
  then show ?thesis by simp
qed

lemma downloadCalls_keeps:
  "objects (s3 w) k = Some ob \<Longrightarrow> storedFor w (downloadFileKey k fname) (content ob)
   \<Longrightarrow> objects (s3 (downloadCalls es k fname w)) k = Some ob
       \<and> storedFor (downloadCalls es k fname w) (downloadFileKey k fname) (content ob)
       \<and> configured (downloadCalls es k fname w) = configured w"
proof (induction es arbitrary: w)
  case Nil
  then show ?case by (simp add: downloadCalls_def)
next
  case (Cons e es)
  obtain w1 res where run: "resumableDownload e k fname w = (w1, res)"
    by (cases "resumableDownload e k fname w") auto
  note r = resumableDownload_run[OF run storedFor_imp_inv[OF Cons.prems(2)]]
  have 1: "objects (s3 w1) k = Some ob" using r Cons.prems(1) by simp
  have 2: "storedFor w1 (downloadFileKey k fname) (content ob)" using r Cons.prems by blast
  have 3: "downloadCalls (e # es) k fname w = downloadCalls es k fname w1"
    using run by (simp add: downloadCalls_def)
  from Cons.IH[OF 1 2] r show ?case by (simp add: 3)
qed

section \<open>Claims about resumableDownload\<close>

lemma mkChunks_12:
  "mkChunks 12582912 =
     [\<lparr>chunk_start = 0, chunk_end = 5242879, downloaded = False\<rparr>,
      \<lparr>chunk_start = 5242880, chunk_end = 10485759, downloaded = False\<rparr>,
      \<lparr>chunk_start = 10485760, chunk_end = 12582911, downloaded = False\<rparr>]"
  by (simp add: mkChunks_def mkChunk_def Let_def CHUNK_SIZE_def upt_conv_Cons)

lemma upt3: "[0..<3] = [0, 1, 2]" "[0..<Suc (Suc (Suc 0))] = [0, 1, 2]"
  by (simp_all add: upt_conv_Cons)

text \<open>
  The 12 MiB scenario, run: with no stored record and no failure the store receives
  the head request and exactly three range requests with the expected bounds, and
  the assembled content has 12 MiB.
\<close>

lemma download12_requests:
  "requests (s3 (fst (resumableDownload allOk ''big.bin'' ''big.bin'' world12))) =
     [HeadObject ''big.bin'', GetObject ''big.bin'' 0 5242879,
      GetObject ''big.bin'' 5242880 10485759, GetObject ''big.bin'' 10485760 12582911]
   \<and> length (projr (snd (resumableDownload allOk ''big.bin'' ''big.bin'' world12))) = 12582912"
  by (simp add: resumableDownload_def world12_def idleWorld_def emptyS3_def allOk_def
        withS3_headObject withS3_getObject Let_def mkChunks_12 upt3 markDownloaded_def
        downloadFileKey_def logRequest_def loadDownloadProgress_def saveDownloadProgress_def
        clearDownloadProgress_def)

text \<open>The same download when the third range request fails: what stays persisted.\<close>

lemma download12_failThird:
  "loadDownloadProgress (fst (resumableDownload failThird ''big.bin'' ''big.bin'' world12))
       (downloadFileKey ''big.bin'' ''big.bin'')
   = Some \<lparr>dp_totalSize = 12582912, downloadedSize = 10485760,
       chunks = [\<lparr>chunk_start = 0, chunk_end = 5242879, downloaded = True\<rparr>,
                 \<lparr>chunk_start = 5242880, chunk_end = 10485759, downloaded = True\<rparr>,
                 \<lparr>chunk_start = 10485760, chunk_end = 12582911, downloaded = False\<rparr>],
       dp_fileName = ''big.bin'', dp_key = ''big.bin'', dp_lastModified = 42\<rparr>"
  by (simp add: resumableDownload_def world12_def idleWorld_def emptyS3_def failThird_def
        withS3_headObject withS3_getObject Let_def mkChunks_12 upt3 markDownloaded_def
        downloadFileKey_def logRequest_def loadDownloadProgress_def saveDownloadProgress_def
        clearDownloadProgress_def)

text \<open>
  Claim C9.  If the record stored for a download satisfies the invariant (or there is
  none), then so does the record stored after an invocation of \<open>resumableDownload\<close>,
  whichever request fails in it; every persisted update is the stored record of the
  invocation that fails right after it.  The invariant says that the ranges partition
  \<open>[0, totalSize)\<close> in order without gap or overlap, that chunk \<open>i\<close> is
  \<open>[i * 5 MiB, min ((i + 1) * 5 MiB, totalSize) - 1]\<close>, and that \<open>downloadedSize\<close> is the
  sum of the lengths of the completed ranges.  A newly created record satisfies it,
  marking a chunk completed preserves it, and the chunk table for 12 MiB has exactly
  the three ranges of the scenario.
\<close>

theorem download_progress_invariant:
  assumes "storedDownloadInv w (downloadFileKey k fname)"
    and "0 \<le> totalSz"
    and "downloadInv p" and "index < length (chunks p)" and "\<not> downloaded (chunks p ! index)"
  shows "storedDownloadInv (fst (resumableDownload e k fname w)) (downloadFileKey k fname)
       \<and> downloadInv \<lparr>dp_totalSize = totalSz, downloadedSize = 0, chunks = mkChunks totalSz,
                       dp_fileName = fname, dp_key = k, dp_lastModified = lastMod\<rparr>
       \<and> downloadInv (markDownloaded index p)
       \<and> rangesOf (mkChunks 12582912) = [(0, 5242879), (5242880, 10485759), (10485760, 12582911)]"
proof -
  obtain w' res where run: "resumableDownload e k fname w = (w', res)"
    by (cases "resumableDownload e k fname w") auto
  from resumableDownload_run[OF run assms(1)]
  have 1: "storedDownloadInv (fst (resumableDownload e k fname w)) (downloadFileKey k fname)"
    by (simp add: run)
  have 2: "downloadInv \<lparr>dp_totalSize = totalSz, downloadedSize = 0, chunks = mkChunks totalSz,
                      dp_fileName = fname, dp_key = k, dp_lastModified = lastMod\<rparr>"
    using assms(2) by (rule downloadInv_fresh)
  have 3: "downloadInv (markDownloaded index p)"
    using assms(3-5) by (rule downloadInv_markDownloaded)
  have 4: "rangesOf (mkChunks 12582912) = [(0, 5242879), (5242880, 10485759), (10485760, 12582911)]"
    by (simp add: mkChunks_12 rangesOf_def)
  from 1 2 3 4 show ?thesis by blast
qed

theorem download_progress_invariant_witness:
  "storedDownloadInv (fst (resumableDownload failThird ''big.bin'' ''big.bin'' world12))
       (downloadFileKey ''big.bin'' ''big.bin'')
   \<and> loadDownloadProgress (fst (resumableDownload failThird ''big.bin'' ''big.bin'' world12))
       (downloadFileKey ''big.bin'' ''big.bin'') \<noteq> None
   \<and> downloadInv (markDownloaded 0
        \<lparr>dp_totalSize = 12582912, downloadedSize = 0, chunks = mkChunks 12582912,
         dp_fileName = ''big.bin'', dp_key = ''big.bin'', dp_lastModified = 42\<rparr>)"
proof -
  let ?p = "\<lparr>dp_totalSize = 12582912, downloadedSize = 0, chunks = mkChunks 12582912,
             dp_fileName = ''big.bin'', dp_key = ''big.bin'', dp_lastModified = 42\<rparr>"
  have h1: "storedDownloadInv world12 (downloadFileKey ''big.bin'' ''big.bin'')"
    by (simp add: storedDownloadInv_def loadDownloadProgress_def world12_def idleWorld_def)
  have h2: "(0::int) \<le> 12582912" by simp
  have h3: "downloadInv ?p" by (rule downloadInv_fresh) simp
  have h4: "0 < length (chunks ?p)" by (simp add: mkChunks_12)
  have h5: "\<not> downloaded (chunks ?p ! 0)" by (simp add: mkChunks_12)
  from download_progress_invariant[OF h1 h2 h3 h4 h5, of failThird 42] download12_failThird
  show ?thesis by simp
qed

text \<open>
  Claim C7.  Let an object be stored under the key, and let the record stored for the
  download, if there is one, describe this object.  After any number of earlier
  invocations for the same key and file name, each of which may have failed at any
  request, an invocation that returns bytes returns exactly the content of the
  object, and an invocation in which no request fails does return.  Chunks completed
  by an earlier invocation are fetched again by the second loop.
\<close>

theorem download_reassembly:
  assumes "configured w" and "objects (s3 w) k = Some ob"
    and "storedFor w (downloadFileKey k fname) (content ob)"
  shows "(case snd (resumableDownload e k fname (downloadCalls es k fname w)) of
            Inl err \<Rightarrow> True
          | Inr r \<Rightarrow> r = content ob)
       \<and> snd (resumableDownload allOk k fname (downloadCalls es k fname w)) = Inr (content ob)"
proof -
  let ?w = "downloadCalls es k fname w"
  note k = downloadCalls_keeps[OF assms(2,3), of es]
  have ob: "objects (s3 ?w) k = Some ob" and sf: "storedFor ?w (downloadFileKey k fname) (content ob)"
    and conf: "configured ?w"
    using k assms(1) by simp_all
  have sound: "r = content ob" if sr: "snd (resumableDownload e' k fname ?w) = Inr r" for e' r
  proof -
    obtain w' where "resumableDownload e' k fname ?w = (w', Inr r)"
      using sr by (cases "resumableDownload e' k fname ?w") auto
    from resumableDownload_run[OF this storedFor_imp_inv[OF sf]] ob sf show ?thesis by blast
  qed
  have "\<exists>r. snd (resumableDownload allOk k fname ?w) = Inr r"
    by (rule resumableDownload_returns[OF conf ob sf]) (simp_all add: allOk_def)
  with sound show ?thesis by (auto split: sum.splits)
qed

theorem download_reassembly_witness:
  "snd (resumableDownload allOk ''big.bin'' ''big.bin''
          (downloadCalls [failThird] ''big.bin'' ''big.bin'' world12))
     = Inr (replicate 12582912 7)"
proof -
  let ?ob = "\<lparr>content = replicate 12582912 (7::byte), modified = 42\<rparr>"
  have h1: "configured world12" by (simp add: world12_def idleWorld_def)
  have h2: "objects (s3 world12) ''big.bin'' = Some ?ob"
    by (simp add: world12_def idleWorld_def emptyS3_def)
  have h3: "storedFor world12 (downloadFileKey ''big.bin'' ''big.bin'') (content ?ob)"
    by (simp add: storedFor_def loadDownloadProgress_def world12_def idleWorld_def)
  from download_reassembly[OF h1 h2 h3, of allOk "[failThird]"] show ?thesis by simp
qed

section \<open>Readers of the persisted records and the queue's start-up purge\<close>

lemma fold_update_fresh:
  "distinct (map fst xs) \<Longrightarrow> fst ` set xs \<inter> fst ` set ys = {}
   \<Longrightarrow> fold (\<lambda>(a, v) acc. AList.update a v acc) xs ys = ys @ xs"
proof (induction xs arbitrary: ys)
  case Nil
  then show ?case by simp
next
  case (Cons x xs)
  obtain a b where x: "x = (a, b)" by (cases x)
  from Cons.prems x have na: "a \<notin> fst ` set ys" by auto
  then have u: "AList.update a b ys = ys @ [(a, b)]"
    by (induction ys) auto
  have d: "distinct (map fst xs)" using Cons.prems(1) by simp
  have "fst ` set xs \<inter> fst ` set (ys @ [(a, b)]) = {}"
    using Cons.prems x by auto
  from Cons.IH[OF d this] x u show ?case by simp
qed

lemma getPendingUploads_entries:
  "distinct (map fst (uploadStore w)) \<Longrightarrow> getPendingUploads w = (w, uploadStore w)"
  using fold_update_fresh[of "uploadStore w" "[]"] by (simp add: getPendingUploads_def)

lemma set_objectEntries [simp]: "set (objectEntries obj) = set obj"
  by (auto simp: objectEntries_def)

lemma fold_clear_completed:
  "map_of (uploadStore (fold (\<lambda>(uploadKey, progress) w'.
                 if g (uploadedSize progress) (totalSize progress)
                 then clearUploadProgress uploadKey w' else w') es w)) k
   = (if \<exists>p. (k, p) \<in> set es \<and> g (uploadedSize p) (totalSize p) then None
      else map_of (uploadStore w) k)"
proof (induction es arbitrary: w)
  case Nil
  then show ?case by simp
next
  case (Cons entry es)
  obtain a p where entry: "entry = (a, p)" by (cases entry)
  show ?case
    unfolding entry
    by (simp add: Cons.IH map_of_clearUploadProgress) blast
qed

lemma fold_loadPendingStep_store:
  "map_of (uploadStore (fst (fold (loadPendingStep g []) es acc))) k
   = (if \<exists>p. (k, p) \<in> set es \<and> (g (uploadedSize p) (totalSize p) \<or> totalSize p \<le> uploadedSize p)
      then None else map_of (uploadStore (fst acc)) k)"
proof (induction es arbitrary: acc)
  case Nil
  then show ?case by simp
next
  case (Cons entry es)
  obtain a p where entry: "entry = (a, p)" by (cases entry)
  obtain w items where acc: "acc = (w, items)" by (cases acc)
  obtain w1 items1 where st: "loadPendingStep g [] (a, p) (w, items) = (w1, items1)"
    by (cases "loadPendingStep g [] (a, p) (w, items)")
  have step: "map_of (uploadStore w1) k
        = (if k = a \<and> (g (uploadedSize p) (totalSize p) \<or> totalSize p \<le> uploadedSize p) then None
           else map_of (uploadStore w) k)"
    using st
    by (auto simp: loadPendingStep_def clearUploadFromStorage_def map_of_clearUploadProgress
             split: if_splits)
  have "map_of (uploadStore (fst (fold (loadPendingStep g []) es (w1, items1)))) k
        = (if \<exists>p. (k, p) \<in> set es \<and> (g (uploadedSize p) (totalSize p) \<or> totalSize p \<le> uploadedSize p)
           then None else map_of (uploadStore w1) k)"
    using Cons.IH[of "(w1, items1)"] unfolding fst_conv .
  then show ?case
    unfolding entry acc
    by (cases "\<exists>p. (k, p) \<in> set es \<and> (g (uploadedSize p) (totalSize p) \<or> totalSize p \<le> uploadedSize p)")
       (auto simp: st step)
qed

lemma downloadStore_clearUploadProgress [simp]:
  "downloadStore (clearUploadProgress k w) = downloadStore w"
  by (simp add: clearUploadProgress_def)

lemma fold_clear_completed_downloads:
  "downloadStore (fold (\<lambda>(uploadKey, progress) w'.
                 if g (uploadedSize progress) (totalSize progress)
                 then clearUploadProgress uploadKey w' else w') es w) = downloadStore w"
  by (induction es arbitrary: w) (auto split: prod.splits)

lemma fold_loadPendingStep_downloads:
  "downloadStore (fst (fold (loadPendingStep g q) es acc)) = downloadStore (fst acc)"
proof (induction es arbitrary: acc)
  case Nil
  then show ?case by simp
next
  case (Cons entry es)
  obtain a p where entry: "entry = (a, p)" by (cases entry)
  obtain w items where acc: "acc = (w, items)" by (cases acc)
  obtain w1 items1 where st: "loadPendingStep g q (a, p) (w, items) = (w1, items1)"
    by (cases "loadPendingStep g q (a, p) (w, items)")
  have "downloadStore w1 = downloadStore w"
    using st by (auto simp: loadPendingStep_def clearUploadFromStorage_def split: if_splits)
  with Cons.IH[of "(w1, items1)"] show ?case unfolding entry acc by (simp add: st)
qed

lemma fold_clear_completed_distinct:
  "distinct (map fst (uploadStore w))
   \<Longrightarrow> distinct (map fst (uploadStore (fold (\<lambda>(uploadKey, progress) w'.
                 if g (uploadedSize progress) (totalSize progress)
                 then clearUploadProgress uploadKey w' else w') es w)))"
  by (induction es arbitrary: w)
     (auto split: prod.splits simp: clearUploadProgress_def distinct_delete)

lemma clearCompletedUploads_store:
  assumes "distinct (map fst (uploadStore w))"
  shows "loadUploadProgress (clearCompletedUploads g w) k =
           (case loadUploadProgress w k of
              None \<Rightarrow> None
            | Some p \<Rightarrow> if g (uploadedSize p) (totalSize p) then None else Some p)"
proof -
  have mem: "\<And>p. ((k, p) \<in> set (uploadStore w)) = (map_of (uploadStore w) k = Some p)"
    using assms by simp
  show ?thesis
    unfolding clearCompletedUploads_def getPendingUploads_entries[OF assms] loadUploadProgress_def
    by (simp add: fold_clear_completed mem split: option.splits)
qed

lemma clearCompletedUploads_distinct:
  "distinct (map fst (uploadStore w)) \<Longrightarrow> distinct (map fst (uploadStore (clearCompletedUploads g w)))"
  by (simp add: clearCompletedUploads_def getPendingUploads_entries fold_clear_completed_distinct)

lemma loadPendingUploads_store:
  assumes "distinct (map fst (uploadStore w))"
  shows "loadUploadProgress (fst (loadPendingUploads g \<lparr>queue = [], isProcessing = False\<rparr> w)) k =
           (case loadUploadProgress w k of
              None \<Rightarrow> None
            | Some p \<Rightarrow> if g (uploadedSize p) (totalSize p) \<or> totalSize p \<le> uploadedSize p then None
                        else Some p)"
proof -
  have mem: "\<And>p. ((k, p) \<in> set (uploadStore w)) = (map_of (uploadStore w) k = Some p)"
    using assms by simp
  have "fst (loadPendingUploads g \<lparr>queue = [], isProcessing = False\<rparr> w)
          = fst (fold (loadPendingStep g []) (objectEntries (uploadStore w)) (w, []))"
    by (simp add: loadPendingUploads_def getPendingUploads_entries[OF assms] split: prod.splits)
  then show ?thesis
    unfolding loadUploadProgress_def
    by (simp add: fold_loadPendingStep_store mem split: option.splits)
qed

lemma resumableDownload_clears:
  "resumableDownload e k fname w = (w', Inr r)
   \<Longrightarrow> loadDownloadProgress w' (downloadFileKey k fname) = None"
  unfolding resumableDownload_def Let_def
  by (auto split: if_splits prod.splits sum.splits option.splits simp: load_clearDownloadProgress)


lemma loadPendingUploads_downloads:
  "downloadStore (fst (loadPendingUploads g st w)) = downloadStore w"
  by (simp add: loadPendingUploads_def getPendingUploads_def split_beta fold_loadPendingStep_downloads)

lemma clearCompletedUploads_downloads:
  "downloadStore (clearCompletedUploads g w) = downloadStore w"
  by (simp add: clearCompletedUploads_def getPendingUploads_def fold_clear_completed_downloads)

text \<open>
  Claim C4, as the code has it.  \<open>getPendingUploads\<close> and \<open>getPendingDownloads\<close> return
  the state unchanged.  Upload records are purged when the upload queue is mounted:
  its effect calls \<open>clearCompletedUploads\<close>, which removes the records that pass the
  percentage test, and then \<open>loadPendingUploads\<close>, which removes the records that pass
  the test or whose uploaded size has reached the total size (the queue of the first
  render is empty, so no record is skipped).  Whatever the percentage test gives, a
  record that is left has an uploaded size below its total size, and the records that
  fail both tests are all left.  The effect does not touch download records: such a
  record is removed by \<open>resumableDownload\<close> for its key, when that returns the bytes.
\<close>

theorem mount_purges_complete_uploads:
  assumes "distinct (map fst (uploadStore w))"
  shows "fst (getPendingUploads w) = w \<and> fst (getPendingDownloads w) = w
       \<and> loadUploadProgress (clearCompletedUploads pct w) uploadKey =
           (case loadUploadProgress w uploadKey of
              None \<Rightarrow> None
            | Some p \<Rightarrow> if pct (uploadedSize p) (totalSize p) then None else Some p)
       \<and> loadUploadProgress (fst (mountEffect pct w)) uploadKey =
           (case loadUploadProgress w uploadKey of
              None \<Rightarrow> None
            | Some p \<Rightarrow> if pct (uploadedSize p) (totalSize p) \<or> totalSize p \<le> uploadedSize p
                        then None else Some p)
       \<and> (\<forall>p. loadUploadProgress (fst (mountEffect pct w)) uploadKey = Some p
              \<longrightarrow> uploadedSize p < totalSize p)
       \<and> downloadStore (fst (mountEffect pct w)) = downloadStore w
       \<and> (snd (resumableDownload e k fname w) = Inr r \<longrightarrow>
            loadDownloadProgress (fst (resumableDownload e k fname w)) (downloadFileKey k fname) = None)"
proof -
  let ?w1 = "clearCompletedUploads pct w"
  note d1 = clearCompletedUploads_distinct[OF assms, of pct]
  have r1: "fst (getPendingUploads w) = w" by (simp add: getPendingUploads_def)
  have r2: "fst (getPendingDownloads w) = w" by (simp add: getPendingDownloads_def)
  note c = clearCompletedUploads_store[OF assms, of pct uploadKey]
  have m: "loadUploadProgress (fst (mountEffect pct w)) uploadKey =
           (case loadUploadProgress w uploadKey of
              None \<Rightarrow> None
            | Some p \<Rightarrow> if pct (uploadedSize p) (totalSize p) \<or> totalSize p \<le> uploadedSize p
                        then None else Some p)"
    unfolding mountEffect_def loadPendingUploads_store[OF d1] c
    by (simp split: option.splits)
  have lt: "\<forall>p. loadUploadProgress (fst (mountEffect pct w)) uploadKey = Some p
              \<longrightarrow> uploadedSize p < totalSize p"
    unfolding m by (auto split: option.splits if_splits)
  have dl: "downloadStore (fst (mountEffect pct w)) = downloadStore w"
    by (simp add: mountEffect_def loadPendingUploads_downloads clearCompletedUploads_downloads)
  have rd: "snd (resumableDownload e k fname w) = Inr r \<longrightarrow>
            loadDownloadProgress (fst (resumableDownload e k fname w)) (downloadFileKey k fname) = None"
    using resumableDownload_clears[of e k fname w "fst (resumableDownload e k fname w)" r]
    by (cases "resumableDownload e k fname w") simp
  from r1 r2 c m lt dl rd show ?thesis by (intro conjI)
qed

theorem mount_purges_complete_uploads_witness:
  "distinct (map fst (uploadStore mixedWorld))
   \<and> loadUploadProgress mixedWorld ''docs/a.bin_a.bin_20971520_17'' = Some staleUpload
   \<and> totalSize staleUpload \<le> uploadedSize staleUpload
   \<and> loadUploadProgress mixedWorld ''docs/b.bin_b.bin_20971520_18'' = Some halfUpload
   \<and> uploadedSize halfUpload < totalSize halfUpload
   \<and> loadUploadProgress
        (fst (mountEffect (\<lambda>u t. if t = 0 then 0 < u else 999 * t \<le> 1000 * u) mixedWorld))
        ''docs/a.bin_a.bin_20971520_17'' = None
   \<and> loadUploadProgress
        (fst (mountEffect (\<lambda>u t. if t = 0 then 0 < u else 999 * t \<le> 1000 * u) mixedWorld))
        ''docs/b.bin_b.bin_20971520_18'' = Some halfUpload
   \<and> loadUploadProgress (fst (mountEffect (\<lambda>u t. False) mixedWorld))
        ''docs/a.bin_a.bin_20971520_17'' = None
   \<and> loadDownloadProgress
        (fst (mountEffect (\<lambda>u t. if t = 0 then 0 < u else 999 * t \<le> 1000 * u) mixedWorld))
        ''big.bin_big.bin'' = Some staleDownload
   \<and> (\<exists>r. snd (resumableDownload allOk ''big.bin'' ''big.bin'' mixedWorld) = Inr r)
   \<and> loadDownloadProgress (fst (resumableDownload allOk ''big.bin'' ''big.bin'' mixedWorld))
        ''big.bin_big.bin'' = None"
proof -
  let ?g = "\<lambda>u t::nat. if t = 0 then 0 < u else 999 * t \<le> 1000 * u"
  let ?ob = "\<lparr>content = replicate 12582912 (7::byte), modified = 42\<rparr>"
  have d: "distinct (map fst (uploadStore mixedWorld))" by (simp add: mixedWorld_def)
  have la: "loadUploadProgress mixedWorld ''docs/a.bin_a.bin_20971520_17'' = Some staleUpload"
    and lb: "loadUploadProgress mixedWorld ''docs/b.bin_b.bin_20971520_18'' = Some halfUpload"
    and ld: "loadDownloadProgress mixedWorld ''big.bin_big.bin'' = Some staleDownload"
    by (simp_all add: mixedWorld_def loadUploadProgress_def loadDownloadProgress_def)
  have sa: "totalSize staleUpload = 20971520" "uploadedSize staleUpload = 20971520"
    by (simp_all add: staleUpload_def)
  have sb: "totalSize halfUpload = 20971520" "uploadedSize halfUpload = 10485760"
    by (simp_all add: halfUpload_def)
  have conf: "configured mixedWorld" by (simp add: mixedWorld_def world12_def idleWorld_def)
  have ob: "objects (s3 mixedWorld) ''big.bin'' = Some ?ob"
    by (simp add: mixedWorld_def world12_def idleWorld_def emptyS3_def)
  have inv: "downloadInv staleDownload"
    by (simp add: downloadInv_def staleDownload_def chunkFormula_def rangesOf_def completedBytes_def upt3)
  have sf: "storedFor mixedWorld (downloadFileKey ''big.bin'' ''big.bin'') (content ?ob)"
    using ld inv by (simp add: storedFor_def downloadFileKey_def staleDownload_def)
  have ok: "headOk allOk" "\<forall>i. chunkOk allOk i" "\<forall>i. refetchOk allOk i" by (simp_all add: allOk_def)
  from resumableDownload_returns[OF conf ob sf ok] obtain r where
    r: "snd (resumableDownload allOk ''big.bin'' ''big.bin'' mixedWorld) = Inr r" ..
  note ta = mount_purges_complete_uploads[OF d, where pct = ?g
              and uploadKey = "''docs/a.bin_a.bin_20971520_17''" and e = allOk and k = "''big.bin''"
              and fname = "''big.bin''" and r = r]
  note tb = mount_purges_complete_uploads[OF d, where pct = ?g
              and uploadKey = "''docs/b.bin_b.bin_20971520_18''" and e = allOk and k = "''big.bin''"
              and fname = "''big.bin''" and r = r]
  note tc = mount_purges_complete_uploads[OF d, where pct = "\<lambda>u t. False"
              and uploadKey = "''docs/a.bin_a.bin_20971520_17''" and e = allOk and k = "''big.bin''"
              and fname = "''big.bin''" and r = r]
  have a1: "loadUploadProgress (fst (mountEffect ?g mixedWorld)) ''docs/a.bin_a.bin_20971520_17'' = None"
    using ta by (simp add: la sa)
  have b1: "loadUploadProgress (fst (mountEffect ?g mixedWorld)) ''docs/b.bin_b.bin_20971520_18''
              = Some halfUpload"
    using tb by (simp add: lb sb)
  have c1: "loadUploadProgress (fst (mountEffect (\<lambda>u t. False) mixedWorld))
              ''docs/a.bin_a.bin_20971520_17'' = None"
    using tc by (simp add: la sa)
  have d1: "loadDownloadProgress (fst (mountEffect ?g mixedWorld)) ''big.bin_big.bin'' = Some staleDownload"
    using ta ld by (simp add: loadDownloadProgress_def)
  have e1: "loadDownloadProgress (fst (resumableDownload allOk ''big.bin'' ''big.bin'' mixedWorld))
              ''big.bin_big.bin'' = None"
    using ta r by (simp add: downloadFileKey_def)
  from d la lb sa sb a1 b1 c1 d1 r e1 show ?thesis by (simp del: distinct.simps)
qed

text \<open>
  The claim as stated fails: both readers return, and the fully transferred records
  are still stored.
\<close>

theorem getPending_keeps_complete_records:
  "loadUploadProgress (fst (getPendingUploads staleWorld)) ''docs/a.bin_a.bin_20971520_17'' = Some staleUpload
   \<and> totalSize staleUpload \<le> uploadedSize staleUpload
   \<and> loadDownloadProgress (fst (getPendingDownloads staleWorld)) ''big.bin_big.bin'' = Some staleDownload
   \<and> dp_totalSize staleDownload \<le> downloadedSize staleDownload"
  by (simp add: getPendingUploads_def getPendingDownloads_def staleWorld_def idleWorld_def
        loadUploadProgress_def loadDownloadProgress_def staleUpload_def staleDownload_def)

section \<open>The upload queue\<close>

lemma showNat_20971520: "showNat 20971520 = ''20971520''"
  by simp

text \<open>
  Claim C2 at a concrete queue.  Two large files are added; the store holds progress
  for the second, which therefore enters the queue paused.  \<open>processQueue\<close> starts the
  first.  Resuming the second marks it as uploading as well.
\<close>

theorem queueResume_second_uploading:
  "map item_status (queue (addFilesToQueue resumeWorld ''docs/'' twoFiles emptyQueue)) = [Queued, Paused]
   \<and> map item_status (queue (processQueue resumeWorld
         (addFilesToQueue resumeWorld ''docs/'' twoFiles emptyQueue))) = [Uploading, Paused]
   \<and> map item_status (queue (queueResume ''id-b'' (processQueue resumeWorld
         (addFilesToQueue resumeWorld ''docs/'' twoFiles emptyQueue)))) = [Uploading, Uploading]
   \<and> uploadingCount (queueResume ''id-b'' (processQueue resumeWorld
         (addFilesToQueue resumeWorld ''docs/'' twoFiles emptyQueue))) = 2"
  by (simp add: addFilesToQueue_def addFileToQueue_def twoFiles_def emptyQueue_def resumeWorld_def
        idleWorld_def getUploadProgress_def loadUploadProgress_def processQueue_def queueResume_def
        setStatus_def uploadingCount_def isUploadActive_def itemFileKey_def showInt_def Let_def)

section \<open>What the calls of other code leave alone\<close>

lemma s3_saveUploadProgress [simp]: "s3 (saveUploadProgress fk p w) = s3 w"
  and ctls_saveUploadProgress [simp]: "ctls (saveUploadProgress fk p w) = ctls w"
  and active_saveUploadProgress [simp]: "activeUploads (saveUploadProgress fk p w) = activeUploads w"
  by (simp_all add: saveUploadProgress_def)

lemma configured_saveUploadProgress [simp]: "configured (saveUploadProgress fk p w) = configured w"
  and configured_clearUploadProgress [simp]: "configured (clearUploadProgress fk w) = configured w"
  by (simp_all add: saveUploadProgress_def clearUploadProgress_def)

lemma s3_clearUploadProgress [simp]: "s3 (clearUploadProgress fk w) = s3 w"
  and ctls_clearUploadProgress [simp]: "ctls (clearUploadProgress fk w) = ctls w"
  and active_clearUploadProgress [simp]: "activeUploads (clearUploadProgress fk w) = activeUploads w"
  by (simp_all add: clearUploadProgress_def)

lemma load_saveUploadProgress [simp]:
  "loadUploadProgress (saveUploadProgress fk p w) fk' = (if fk' = fk then Some p else loadUploadProgress w fk')"
  by (simp add: loadUploadProgress_def saveUploadProgress_def update_conv)

lemma load_clearUploadProgress [simp]:
  "loadUploadProgress (clearUploadProgress fk w) fk' = (if fk' = fk then None else loadUploadProgress w fk')"
  by (simp add: loadUploadProgress_def clearUploadProgress_def delete_conv)

lemma s3_applyCall [simp]: "s3 (applyCall c w) = s3 w"
  by (cases c)
     (simp_all add: pauseUpload_def resumeUpload_def cancelUpload_def abort_def Let_def
        split: option.splits)

lemma s3_fold_applyCall [simp]: "s3 (fold applyCall cs w) = s3 w"
  by (induction cs arbitrary: w) simp_all

lemma s3_pauseWait [simp]: "s3 (fst (pauseWait r css w)) = s3 w"
  by (induction css arbitrary: w) simp_all

lemma withS3_uploadPart:
  "withS3 (uploadPart ok k pn uid body) w =
     (let s1 = logRequest (UploadPart k pn uid body) (s3 w) in
      if \<not> ok then (w\<lparr>s3 := s1\<rparr>, Inl NetworkFailure)
      else case sessions (s3 w) uid of
             None \<Rightarrow> (w\<lparr>s3 := s1\<rparr>, Inl NoSuchUpload)
           | Some ses \<Rightarrow>
               if skey ses \<noteq> k then (w\<lparr>s3 := s1\<rparr>, Inl NoSuchUpload)
               else (w\<lparr>s3 := s1\<lparr>sessions := (sessions (s3 w))(uid \<mapsto> ses\<lparr>sparts := (sparts ses)(pn \<mapsto> body)\<rparr>)\<rparr>\<rparr>,
                     Inr (etagOf (s3 w) body)))"
  by (simp add: withS3_def uploadPart_def Let_def logRequest_def split: option.splits)

lemma uploadParts_append:
  "uploadParts e f k fk r (ps1 @ ps2) progress w =
     (case uploadParts e f k fk r ps1 progress w of
        (w1, progress1, Finished) \<Rightarrow> uploadParts e f k fk r ps2 progress1 w1
      | (w1, progress1, out) \<Rightarrow> (w1, progress1, out))"
proof (induction ps1 arbitrary: progress w)
  case Nil
  then show ?case by simp
next
  case (Cons p ps1)
  show ?case
    by (simp add: Cons.IH split: prod.splits outcome.splits)
qed

text \<open>What one iteration does to the store and to \<open>progress\<close>.\<close>

lemma uploadIteration_cases:
  assumes "uploadIteration e f k fk r p progress w = (w', progress', out)"
  shows "((out = Threw UploadCancelled \<or> out = Suspended \<or> (out = Finished \<and> map_of (parts progress) p \<noteq> None))
          \<and> progress' = progress \<and> s3 w' = s3 w)
       \<or> (map_of (parts progress) p = None
          \<and> (\<exists>res s'. uploadPart (partOk e p) k p (uploadId progress) (chunkOf f p) (s3 w) = (s', res)
                \<and> s3 w' = s'
                \<and> (case res of
                     Inl err \<Rightarrow> out = Threw err \<and> progress' = progress
                   | Inr tag \<Rightarrow>
                       out = Finished
                       \<and> progress' = progress
                            \<lparr>parts := AList.update p \<lparr>etag = tag, psize = length (chunkOf f p)\<rparr> (parts progress),
                             uploadedSize := uploadedSize progress + length (chunkOf f p)\<rparr>
                       \<and> loadUploadProgress w' fk = Some progress')))"
proof (cases "isAborted (ctls w r)")
  case True
  with assms show ?thesis by (auto simp: uploadIteration_def)
next
  case False
  obtain w1 resumed where pw:
    "(if isPaused (ctls w r) then pauseWait r (atSleep e p) (saveUploadProgress fk progress w) else (w, True))
       = (w1, resumed)"
    by (cases "(if isPaused (ctls w r) then pauseWait r (atSleep e p) (saveUploadProgress fk progress w) else (w, True))")
  have s1: "s3 w1 = s3 w"
  proof (cases "isPaused (ctls w r)")
    case True
    with pw have "w1 = fst (pauseWait r (atSleep e p) (saveUploadProgress fk progress w))" by simp
    then show ?thesis by simp
  next
    case False
    with pw show ?thesis by simp
  qed
  show ?thesis
  proof (cases "\<not> resumed \<or> (isPaused (ctls w r) \<and> isAborted (ctls w1 r)) \<or> map_of (parts progress) p \<noteq> None")
    case True
    with assms False pw s1 show ?thesis
      by (auto simp: uploadIteration_def Let_def split: if_splits)
  next
    case go: False
    obtain s' res where up: "uploadPart (partOk e p) k p (uploadId progress) (chunkOf f p) (s3 w) = (s', res)"
      by (cases "uploadPart (partOk e p) k p (uploadId progress) (chunkOf f p) (s3 w)")
    have ws: "withS3 (uploadPart (partOk e p) k p (uploadId progress) (chunkOf f p)) w1 = (w1\<lparr>s3 := s'\<rparr>, res)"
      using up s1 by (simp add: withS3_def)
    from go have none: "map_of (parts progress) p = None" by simp
    from assms False pw go ws up show ?thesis
      apply -
      apply (rule disjI2, rule conjI, rule none)
      apply (rule exI[of _ res], rule exI[of _ s'])
      apply (cases res)
       apply (auto simp: uploadIteration_def Let_def chunkOf_def)
      done
  qed
qed


lemma update_absent: "a \<notin> fst ` set al \<Longrightarrow> AList.update a v al = al @ [(a, v)]"
  by (induction al) auto

lemma map_of_None_iff: "map_of al a = None \<longleftrightarrow> a \<notin> fst ` set al"
  by (simp add: map_of_eq_None_iff)

lemma uploadPart_cases:
  assumes "uploadPart ok k p uid body s = (s', res)"
  shows "requests s' = requests s @ [UploadPart k p uid body] \<and> objects s' = objects s
         \<and> etagOf s' = etagOf s \<and> clock s' = clock s \<and> nextUploadId s' = nextUploadId s
         \<and> (case res of
              Inl err \<Rightarrow> sessions s' = sessions s \<and> (err = NetworkFailure \<or> err = NoSuchUpload)
            | Inr tag \<Rightarrow> ok \<and> tag = etagOf s body
                  \<and> (\<exists>ses. sessions s uid = Some ses \<and> skey ses = k
                        \<and> sessions s' = (sessions s)(uid \<mapsto> ses\<lparr>sparts := (sparts ses)(p \<mapsto> body)\<rparr>)))"
  using assms
  by (auto simp: uploadPart_def logRequest_def Let_def split: if_splits option.splits)

text \<open>One iteration keeps the record in step with the store.\<close>

lemma uploadIteration_acknowledged:
  assumes run: "uploadIteration e f k fk r p progress w = (w', progress', out)"
    and ack: "acknowledged f k (s3 w) progress"
    and rng: "1 \<le> p" "p \<le> totalChunksOf (fsize f)"
  shows "acknowledged f k (s3 w') progress' \<and> uploadId progress' = uploadId progress
         \<and> totalSize progress' = totalSize progress \<and> fileName progress' = fileName progress
         \<and> objects (s3 w') = objects (s3 w) \<and> clock (s3 w') = clock (s3 w)"
proof -
  from uploadIteration_cases[OF run]
  consider (same) "progress' = progress" "s3 w' = s3 w"
    | (sent) s' res where "map_of (parts progress) p = None"
        "uploadPart (partOk e p) k p (uploadId progress) (chunkOf f p) (s3 w) = (s', res)"
        "s3 w' = s'"
        "case res of
           Inl err \<Rightarrow> out = Threw err \<and> progress' = progress
         | Inr tag \<Rightarrow> out = Finished
             \<and> progress' = progress
                  \<lparr>parts := AList.update p \<lparr>etag = tag, psize = length (chunkOf f p)\<rparr> (parts progress),
                   uploadedSize := uploadedSize progress + length (chunkOf f p)\<rparr>
             \<and> loadUploadProgress w' fk = Some progress'"
    by blast
  then show ?thesis
  proof cases
    case same
    with ack show ?thesis by simp
  next
    case sent
    note up = uploadPart_cases[OF sent(2)]
    have info: "partInfoOf s' = partInfoOf (s3 w)"
      using up by (simp add: partInfoOf_def fun_eq_iff)
    show ?thesis
    proof (cases res)
      case (Inl err)
      with sent up ack info show ?thesis
        by (auto simp: acknowledged_def split: option.splits)
    next
      case (Inr tag)
      with sent(4) have p': "progress' = progress
                  \<lparr>parts := AList.update p \<lparr>etag = tag, psize = length (chunkOf f p)\<rparr> (parts progress),
                   uploadedSize := uploadedSize progress + length (chunkOf f p)\<rparr>" by simp
      from up Inr obtain ses where ses: "sessions (s3 w) (uploadId progress) = Some ses" "skey ses = k"
        "sessions s' = (sessions (s3 w))(uploadId progress \<mapsto> ses\<lparr>sparts := (sparts ses)(p \<mapsto> chunkOf f p)\<rparr>)"
        and tag: "tag = etagOf (s3 w) (chunkOf f p)"
        by auto
      have absent: "p \<notin> fst ` set (parts progress)"
        using sent(1) by (simp add: map_of_None_iff)
      from ack ses have a: "distinct (map fst (parts progress))"
        "\<And>q. map_of (parts progress) q = map_option (partInfoOf (s3 w)) (sparts ses q)"
        "\<And>q body. sparts ses q = Some body \<Longrightarrow> 1 \<le> q \<and> q \<le> totalChunksOf (fsize f) \<and> body = chunkOf f q"
        "uploadedSize progress = sum_list (map (\<lambda>x. psize (snd x)) (parts progress))"
        by (auto simp: acknowledged_def)
      let ?v = "partInfoOf (s3 w) (chunkOf f p)"
      have p'': "progress' = progress
                  \<lparr>parts := AList.update p ?v (parts progress),
                   uploadedSize := uploadedSize progress + length (chunkOf f p)\<rparr>"
        using p' tag by (simp add: partInfoOf_def)
      have m: "\<And>q. map_of (AList.update p ?v (parts progress)) q
                    = (if q = p then Some ?v else map_of (parts progress) q)"
        by (simp add: update_conv)
      have sm: "sum_list (map (\<lambda>x. psize (snd x)) (AList.update p ?v (parts progress)))
                  = sum_list (map (\<lambda>x. psize (snd x)) (parts progress)) + length (chunkOf f p)"
        using absent by (simp add: update_absent partInfoOf_def)
      have d: "distinct (map fst (AList.update p ?v (parts progress)))"
        using a(1) by (rule distinct_update)
      have "acknowledged f k s' progress'"
        unfolding acknowledged_def
        using ses a(2-4) rng
        by (auto simp: p'' info m sm d)
      with sent(3) up p' show ?thesis by simp
    qed
  qed
qed

lemma uploadParts_acknowledged:
  "uploadParts e f k fk r ps progress w = (w', progress', out)
   \<Longrightarrow> acknowledged f k (s3 w) progress
   \<Longrightarrow> \<forall>p\<in>set ps. 1 \<le> p \<and> p \<le> totalChunksOf (fsize f)
   \<Longrightarrow> acknowledged f k (s3 w') progress' \<and> uploadId progress' = uploadId progress
       \<and> totalSize progress' = totalSize progress \<and> fileName progress' = fileName progress
       \<and> objects (s3 w') = objects (s3 w) \<and> clock (s3 w') = clock (s3 w)"
proof (induction ps arbitrary: progress w)
  case Nil
  then show ?case by simp
next
  case (Cons p ps)
  obtain w1 p1 o1 where it: "uploadIteration e f k fk r p progress w = (w1, p1, o1)"
    by (cases "uploadIteration e f k fk r p progress w") auto
  have rng: "1 \<le> p" "p \<le> totalChunksOf (fsize f)" using Cons.prems(3) by simp_all
  note a1 = uploadIteration_acknowledged[OF it Cons.prems(2) rng]
  show ?case
  proof (cases "o1 = Finished")
    case True
    with Cons.prems(1) it have "uploadParts e f k fk r ps p1 w1 = (w', progress', out)" by simp
    from Cons.IH[OF this] a1 Cons.prems(3) show ?thesis by simp
  next
    case False
    with Cons.prems(1) it have "w' = w1" "progress' = p1"
      by (cases o1; simp)+
    with a1 show ?thesis by simp
  qed
qed


section \<open>The part requests of one run of the loop\<close>

lemma partsRequested_append [simp]:
  "partsRequested (xs @ ys) = partsRequested xs @ partsRequested ys"
  by (induction xs rule: partsRequested.induct) simp_all

lemma partsRequested_map [simp]:
  "partsRequested (map (\<lambda>p. UploadPart k p uid (g p)) qs) = qs"
  by (induction qs) simp_all

lemma uploadIteration_requests:
  assumes run: "uploadIteration e f k fk r p progress w = (w', progress', out)"
  shows "\<exists>qs. requests (s3 w') = requests (s3 w) @ map (\<lambda>q. UploadPart k q (uploadId progress) (chunkOf f q)) qs
              \<and> (qs = [] \<or> qs = [p] \<and> map_of (parts progress) p = None)
              \<and> uploadId progress' = uploadId progress
              \<and> (\<forall>q. q \<noteq> p \<longrightarrow> map_of (parts progress') q = map_of (parts progress) q)
              \<and> (out = Finished \<longrightarrow>
                    qs = (if map_of (parts progress) p = None then [p] else [])
                    \<and> fst ` set (parts progress') = insert p (fst ` set (parts progress)))"
proof -
  from uploadIteration_cases[OF run]
  consider (same) "out = Threw UploadCancelled \<or> out = Suspended \<or> (out = Finished \<and> map_of (parts progress) p \<noteq> None)"
        "progress' = progress" "s3 w' = s3 w"
    | (sent) s' res where "map_of (parts progress) p = None"
        "uploadPart (partOk e p) k p (uploadId progress) (chunkOf f p) (s3 w) = (s', res)"
        "s3 w' = s'"
        "case res of
           Inl err \<Rightarrow> out = Threw err \<and> progress' = progress
         | Inr tag \<Rightarrow> out = Finished
             \<and> progress' = progress
                  \<lparr>parts := AList.update p \<lparr>etag = tag, psize = length (chunkOf f p)\<rparr> (parts progress),
                   uploadedSize := uploadedSize progress + length (chunkOf f p)\<rparr>
             \<and> loadUploadProgress w' fk = Some progress'"
    by blast
  then show ?thesis
  proof cases
    case same
    have "p \<in> fst ` set (parts progress)" if "map_of (parts progress) p \<noteq> None"
      using that by (simp add: map_of_None_iff)
    with same show ?thesis
      by (intro exI[of _ "[]"]) auto
  next
    case sent
    note up = uploadPart_cases[OF sent(2)]
    show ?thesis
    proof (cases res)
      case (Inl err)
      with sent up show ?thesis
        by (intro exI[of _ "[p]"]) auto
    next
      case (Inr tag)
      with sent up show ?thesis
        by (intro exI[of _ "[p]"]) (auto simp: update_conv dom_update image_iff)
    qed
  qed
qed

lemma uploadParts_requests:
  "uploadParts e f k fk r ps progress w = (w', progress', out) \<Longrightarrow> distinct ps
   \<Longrightarrow> \<exists>qs. requests (s3 w') = requests (s3 w) @ map (\<lambda>q. UploadPart k q (uploadId progress) (chunkOf f q)) qs
          \<and> set qs \<subseteq> set ps \<and> distinct qs \<and> (\<forall>q\<in>set qs. map_of (parts progress) q = None)
          \<and> uploadId progress' = uploadId progress
          \<and> (\<forall>q. q \<notin> set ps \<longrightarrow> map_of (parts progress') q = map_of (parts progress) q)
          \<and> (out = Finished \<longrightarrow>
                qs = filter (\<lambda>q. map_of (parts progress) q = None) ps
                \<and> fst ` set (parts progress') = fst ` set (parts progress) \<union> set ps)"
proof (induction ps arbitrary: progress w)
  case Nil
  then show ?case by (intro exI[of _ "[]"]) simp
next
  case (Cons p ps)
  let ?mk = "\<lambda>q. UploadPart k q (uploadId progress) (chunkOf f q)"
  obtain w1 p1 o1 where it: "uploadIteration e f k fk r p progress w = (w1, p1, o1)"
    by (cases "uploadIteration e f k fk r p progress w") auto
  from uploadIteration_requests[OF it] obtain qs1 where q1:
    "requests (s3 w1) = requests (s3 w) @ map ?mk qs1"
    "qs1 = [] \<or> qs1 = [p] \<and> map_of (parts progress) p = None"
    "uploadId p1 = uploadId progress"
    "\<forall>q. q \<noteq> p \<longrightarrow> map_of (parts p1) q = map_of (parts progress) q"
    "o1 = Finished \<longrightarrow> qs1 = (if map_of (parts progress) p = None then [p] else [])
        \<and> fst ` set (parts p1) = insert p (fst ` set (parts progress))"
    by blast
  have pn: "p \<notin> set ps" and dps: "distinct ps" using Cons.prems(2) by simp_all
  show ?case
  proof (cases "o1 = Finished")
    case False
    with Cons.prems(1) it have e: "w' = w1" "progress' = p1" "out = o1"
      by (cases o1; simp)+
    from q1 e False show ?thesis
      by (intro exI[of _ qs1]) auto
  next
    case True
    with Cons.prems(1) it have rest: "uploadParts e f k fk r ps p1 w1 = (w', progress', out)" by simp
    from Cons.IH[OF rest dps] obtain qs2 where q2:
      "requests (s3 w') = requests (s3 w1) @ map (\<lambda>q. UploadPart k q (uploadId p1) (chunkOf f q)) qs2"
      "set qs2 \<subseteq> set ps" "distinct qs2" "\<forall>q\<in>set qs2. map_of (parts p1) q = None"
      "uploadId progress' = uploadId p1"
      "\<forall>q. q \<notin> set ps \<longrightarrow> map_of (parts progress') q = map_of (parts p1) q"
      "out = Finished \<longrightarrow> qs2 = filter (\<lambda>q. map_of (parts p1) q = None) ps
          \<and> fst ` set (parts progress') = fst ` set (parts p1) \<union> set ps"
      by blast
    have same: "\<And>q. q \<in> set ps \<Longrightarrow> map_of (parts p1) q = map_of (parts progress) q"
      using q1(4) pn by auto
    have f: "filter (\<lambda>q. map_of (parts p1) q = None) ps = filter (\<lambda>q. map_of (parts progress) q = None) ps"
      by (rule filter_cong) (simp_all add: same)
    have r: "requests (s3 w') = requests (s3 w) @ map ?mk (qs1 @ qs2)"
      using q1(1,3) q2(1) by simp
    have d: "distinct (qs1 @ qs2)" using q1(2) q2(2,3) pn by auto
    have n: "\<forall>q\<in>set (qs1 @ qs2). map_of (parts progress) q = None"
    proof
      fix q assume q: "q \<in> set (qs1 @ qs2)"
      show "map_of (parts progress) q = None"
      proof (cases "q \<in> set qs2")
        case True
        then have "q \<in> set ps" using q2(2) by auto
        from same[OF this] q2(4) True show ?thesis by simp
      next
        case False
        with q q1(2) show ?thesis by auto
      qed
    qed
    have o: "\<forall>q. q \<notin> set (p # ps) \<longrightarrow> map_of (parts progress') q = map_of (parts progress) q"
      using q1(4) q2(6) by auto
    have fin: "out = Finished \<longrightarrow> qs1 @ qs2 = filter (\<lambda>q. map_of (parts progress) q = None) (p # ps)
          \<and> fst ` set (parts progress') = fst ` set (parts progress) \<union> set (p # ps)"
      using q1(5) q2(7) True f by auto
    have sub: "set (qs1 @ qs2) \<subseteq> set (p # ps)" using q1(2) q2(2) by auto
    from r sub d n q1(3) q2(5) o fin show ?thesis
      by (intro exI[of _ "qs1 @ qs2"]) simp
  qed
qed


section \<open>The loop when no other code interferes\<close>

declare upt_Suc [simp del]

lemma uploadIteration_calm:
  assumes "\<not> isAborted (ctls w r)" "\<not> isPaused (ctls w r)" "atPart e p = []"
  shows "uploadIteration e f k fk r p progress w =
     (if map_of (parts progress) p \<noteq> None then (w, progress, Finished)
      else case uploadPart (partOk e p) k p (uploadId progress) (chunkOf f p) (s3 w) of
             (s', Inl err) \<Rightarrow> (w\<lparr>s3 := s'\<rparr>, progress, Threw err)
           | (s', Inr tag) \<Rightarrow>
               (saveUploadProgress fk
                  (progress\<lparr>parts := AList.update p \<lparr>etag = tag, psize = length (chunkOf f p)\<rparr> (parts progress),
                            uploadedSize := uploadedSize progress + length (chunkOf f p)\<rparr>)
                  (w\<lparr>s3 := s'\<rparr>),
                progress\<lparr>parts := AList.update p \<lparr>etag = tag, psize = length (chunkOf f p)\<rparr> (parts progress),
                         uploadedSize := uploadedSize progress + length (chunkOf f p)\<rparr>,
                Finished))"
  using assms
  by (simp add: uploadIteration_def Let_def withS3_def chunkOf_def split: prod.splits sum.splits)

text \<open>What the loop leaves alone, and how it can end, when no other code interferes.\<close>

lemma uploadParts_calm:
  "uploadParts e f k fk r ps progress w = (w', progress', out)
   \<Longrightarrow> \<not> isAborted (ctls w r) \<Longrightarrow> \<not> isPaused (ctls w r) \<Longrightarrow> \<forall>p. atPart e p = []
   \<Longrightarrow> ctls w' = ctls w \<and> activeUploads w' = activeUploads w \<and> configured w' = configured w
       \<and> nextCtl w' = nextCtl w \<and> downloadStore w' = downloadStore w
       \<and> (\<forall>fk'. fk' \<noteq> fk \<longrightarrow> loadUploadProgress w' fk' = loadUploadProgress w fk')
       \<and> out \<noteq> Suspended \<and> out \<noteq> Threw UploadCancelled"
proof (induction ps arbitrary: progress w)
  case Nil
  then show ?case by simp
next
  case (Cons p ps)
  obtain w1 p1 o1 where it: "uploadIteration e f k fk r p progress w = (w1, p1, o1)"
    by (cases "uploadIteration e f k fk r p progress w") auto
  have ap: "atPart e p = []" using Cons.prems(4) by simp
  obtain s' res where up: "uploadPart (partOk e p) k p (uploadId progress) (chunkOf f p) (s3 w) = (s', res)"
    by (cases "uploadPart (partOk e p) k p (uploadId progress) (chunkOf f p) (s3 w)")
  note upc = uploadPart_cases[OF up]
  note eq = it[unfolded uploadIteration_calm[OF Cons.prems(2,3) ap, of f k fk progress] up]
  have one: "ctls w1 = ctls w \<and> activeUploads w1 = activeUploads w \<and> configured w1 = configured w
       \<and> nextCtl w1 = nextCtl w \<and> downloadStore w1 = downloadStore w
       \<and> (\<forall>fk'. fk' \<noteq> fk \<longrightarrow> loadUploadProgress w1 fk' = loadUploadProgress w fk')
       \<and> o1 \<noteq> Suspended \<and> o1 \<noteq> Threw UploadCancelled"
  proof (cases "map_of (parts progress) p \<noteq> None")
    case True
    with eq show ?thesis by auto
  next
    case False
    show ?thesis
    proof (cases res)
      case (Inl err)
      with eq False upc show ?thesis by (auto simp: loadUploadProgress_def)
    next
      case (Inr tag)
      with eq False show ?thesis
        by (auto simp: saveUploadProgress_def loadUploadProgress_def update_conv)
    qed
  qed
  show ?case
  proof (cases "o1 = Finished")
    case True
    with Cons.prems(1) it have rest: "uploadParts e f k fk r ps p1 w1 = (w', progress', out)" by simp
    from Cons.IH[OF rest] one Cons.prems(2-4) show ?thesis by simp
  next
    case False
    with Cons.prems(1) it have "w' = w1" "out = o1"
      by (cases o1; simp)+
    with one show ?thesis by simp
  qed
qed

text \<open>With an acknowledged record and no failing request the loop runs to its end.\<close>

lemma uploadParts_finishes:
  "\<not> isAborted (ctls w r) \<Longrightarrow> \<not> isPaused (ctls w r) \<Longrightarrow> \<forall>p. atPart e p = []
   \<Longrightarrow> acknowledged f k (s3 w) progress
   \<Longrightarrow> \<forall>p\<in>set ps. 1 \<le> p \<and> p \<le> totalChunksOf (fsize f) \<and> partOk e p
   \<Longrightarrow> \<exists>w' progress'. uploadParts e f k fk r ps progress w = (w', progress', Finished)"
proof (induction ps arbitrary: progress w)
  case Nil
  then show ?case by simp
next
  case (Cons p ps)
  obtain w1 p1 o1 where it: "uploadIteration e f k fk r p progress w = (w1, p1, o1)"
    by (cases "uploadIteration e f k fk r p progress w") auto
  have ap: "atPart e p = []" using Cons.prems(3) by simp
  have rng: "1 \<le> p" "p \<le> totalChunksOf (fsize f)" and ok: "partOk e p" using Cons.prems(5) by simp_all
  from Cons.prems(4) obtain ses where ses: "sessions (s3 w) (uploadId progress) = Some ses" "skey ses = k"
    by (auto simp: acknowledged_def split: option.splits)
  obtain s' tag where up: "uploadPart (partOk e p) k p (uploadId progress) (chunkOf f p) (s3 w) = (s', Inr tag)"
    using ok ses by (simp add: uploadPart_def Let_def logRequest_def)
  have fin: "o1 = Finished"
    using it[unfolded uploadIteration_calm[OF Cons.prems(1,2) ap, of f k fk progress] up]
    by (auto split: if_splits)
  have single: "uploadParts e f k fk r [p] progress w = (w1, p1, o1)"
    using it by (cases o1) simp_all
  have c1: "ctls w1 = ctls w"
    using uploadParts_calm[OF single Cons.prems(1,2,3)] by simp
  note a1 = uploadIteration_acknowledged[OF it Cons.prems(4) rng]
  have "\<exists>w' progress'. uploadParts e f k fk r ps p1 w1 = (w', progress', Finished)"
    using Cons.IH[of w1 p1] Cons.prems c1 a1 by simp
  with it fin show ?case by simp
qed

section \<open>The completion request\<close>

lemma CHUNK_SIZE_pos: "0 < CHUNK_SIZE"
  by (simp add: CHUNK_SIZE_def)

lemma chunkOf_take: "chunkOf f (Suc m) = take CHUNK_SIZE (drop (m * CHUNK_SIZE) (bytes f))"
proof -
  let ?a = "m * CHUNK_SIZE" and ?bs = "bytes f"
  have "take (min (?a + CHUNK_SIZE) (length ?bs) - ?a) (drop ?a ?bs) = take CHUNK_SIZE (drop ?a ?bs)"
    by (cases "?a + CHUNK_SIZE \<le> length ?bs") (simp_all add: min_def)
  then show ?thesis by (simp add: chunkOf_def slice_def fsize_def)
qed

lemma concat_chunks: "concat (map (chunkOf f) [1..<Suc m]) = take (m * CHUNK_SIZE) (bytes f)"
proof (induction m)
  case 0
  then show ?case by simp
next
  case (Suc m)
  have "take (Suc m * CHUNK_SIZE) (bytes f)
          = take (m * CHUNK_SIZE) (bytes f) @ take CHUNK_SIZE (drop (m * CHUNK_SIZE) (bytes f))"
    using take_add[of "m * CHUNK_SIZE" CHUNK_SIZE "bytes f"] by (simp add: add.commute)
  with Suc show ?case by (simp add: chunkOf_take upt_Suc)
qed

lemma totalChunks_covers: "fsize f \<le> totalChunksOf (fsize f) * CHUNK_SIZE"
proof -
  have "(fsize f + CHUNK_SIZE - 1) div CHUNK_SIZE * CHUNK_SIZE + (fsize f + CHUNK_SIZE - 1) mod CHUNK_SIZE
          = fsize f + CHUNK_SIZE - 1"
    by simp
  moreover have "(fsize f + CHUNK_SIZE - 1) mod CHUNK_SIZE < CHUNK_SIZE"
    using CHUNK_SIZE_pos by simp
  ultimately show ?thesis unfolding totalChunksOf_def by linarith
qed

lemma concat_all_chunks: "concat (map (chunkOf f) [1..<Suc (totalChunksOf (fsize f))]) = bytes f"
proof -
  have "length (bytes f) \<le> totalChunksOf (fsize f) * CHUNK_SIZE"
    using totalChunks_covers[of f] by (simp add: fsize_def)
  then show ?thesis by (simp only: concat_chunks) simp
qed

lemma sort_keys: "distinct xs \<Longrightarrow> set xs = {1..n} \<Longrightarrow> sort xs = [1..<Suc n]"
proof -
  assume d: "distinct xs" and s: "set xs = {1..n}"
  have 1: "sorted (sort xs)" by (rule sorted_sort)
  have 2: "distinct (sort xs)" using d by (simp only: distinct_sort)
  have 3: "sorted [1..<Suc n]" by (rule sorted_upt)
  have 4: "distinct [1..<Suc n]" by (rule distinct_upt)
  have 5: "set (sort xs) = set [1..<Suc n]"
    by (simp only: set_sort s set_upt atLeastLessThanSuc_atLeastAtMost)
  from 1 2 3 4 5 show ?thesis by (rule sorted_distinct_set_unique)
qed

lemma manifestPart_logRequest [simp]: "manifestPart (logRequest rq s) ses entry = manifestPart s ses entry"
  by (simp add: manifestPart_def logRequest_def split: option.splits)

lemma logRequest_fields [simp]:
  "requests (logRequest rq s) = requests s @ [rq]"
  "sessions (logRequest rq s) = sessions s"
  "clock (logRequest rq s) = clock s"
  "etagOf (logRequest rq s) = etagOf s"
  "nextUploadId (logRequest rq s) = nextUploadId s"
  by (simp_all add: logRequest_def)

text \<open>
  When the record holds all parts, the manifest lists them in ascending order and the
  completed object is the file.
\<close>

lemma complete_all_parts:
  assumes ack: "acknowledged f k s progress"
    and all: "fst ` set (parts progress) = {1..totalChunksOf (fsize f)}"
  shows "map snd (manifestOf progress) = [1..<Suc (totalChunksOf (fsize f))]"
    and "\<exists>s'. completeMultipartUpload True k (uploadId progress) (manifestOf progress) s = (s', Inr ())
              \<and> objects s' = (objects s)(k \<mapsto> \<lparr>content = bytes f, modified = clock s\<rparr>)
              \<and> requests s' = requests s @ [CompleteMultipartUpload k (uploadId progress) (manifestOf progress)]"
proof -
  let ?n = "totalChunksOf (fsize f)"
  from ack obtain ses where ses: "sessions s (uploadId progress) = Some ses" "skey ses = k"
    and d: "distinct (map fst (parts progress))"
    and m: "\<And>p. map_of (parts progress) p = map_option (partInfoOf s) (sparts ses p)"
    and b: "\<And>p body. sparts ses p = Some body \<Longrightarrow> 1 \<le> p \<and> p \<le> ?n \<and> body = chunkOf f p"
    by (auto simp: acknowledged_def split: option.splits)
  have keys: "sort (map fst (parts progress)) = [1..<Suc ?n]"
    using sort_keys[OF d] all by simp
  show "map snd (manifestOf progress) = [1..<Suc ?n]"
    by (simp add: manifestOf_def keys o_def)
  have part: "sparts ses p = Some (chunkOf f p)" if "p \<in> set [1..<Suc ?n]" for p
  proof -
    from that all have "p \<in> fst ` set (parts progress)" by auto
    then have "map_of (parts progress) p \<noteq> None" by (simp add: map_of_None_iff)
    with m[of p] obtain body where "sparts ses p = Some body" by (cases "sparts ses p") auto
    with b[OF this] show ?thesis by simp
  qed
  have mp: "manifestPart s ses (etag (the (map_of (parts progress) p)), p) = Some (chunkOf f p)"
    if "p \<in> set [1..<Suc ?n]" for p
    using part[OF that] m[of p] by (simp add: manifestPart_def partInfoOf_def)
  have allp: "list_all (\<lambda>entry. manifestPart s ses entry \<noteq> None) (manifestOf progress)"
    using mp by (simp add: manifestOf_def keys list_all_iff)
  have "map (\<lambda>entry. the (manifestPart s ses entry)) (manifestOf progress) = map (chunkOf f) [1..<Suc ?n]"
    unfolding manifestOf_def keys using mp by (simp add: o_def cong: map_cong)
  then have cont: "concat (map (\<lambda>entry. the (manifestPart s ses entry)) (manifestOf progress)) = bytes f"
    by (simp only: concat_all_chunks)
  show "\<exists>s'. completeMultipartUpload True k (uploadId progress) (manifestOf progress) s = (s', Inr ())
              \<and> objects s' = (objects s)(k \<mapsto> \<lparr>content = bytes f, modified = clock s\<rparr>)
              \<and> requests s' = requests s @ [CompleteMultipartUpload k (uploadId progress) (manifestOf progress)]"
    using ses allp cont
    by (simp add: completeMultipartUpload_def Let_def)
qed


section \<open>The try block and the catch block\<close>

lemma partInfoOf_logRequest [simp]: "partInfoOf (logRequest rq s) = partInfoOf s"
  by (simp add: partInfoOf_def fun_eq_iff)

lemma acknowledged_logRequest [simp]:
  "acknowledged f k (logRequest rq s) progress = acknowledged f k s progress"
  by (simp add: acknowledged_def split: option.splits)

lemma acknowledged_keys:
  "acknowledged f k s progress \<Longrightarrow> fst ` set (parts progress) \<subseteq> {1..totalChunksOf (fsize f)}"
proof
  fix p assume ack: "acknowledged f k s progress" and p: "p \<in> fst ` set (parts progress)"
  from ack obtain ses where ses: "sessions s (uploadId progress) = Some ses"
    and m: "\<And>q. map_of (parts progress) q = map_option (partInfoOf s) (sparts ses q)"
    and b: "\<And>q body. sparts ses q = Some body \<Longrightarrow> 1 \<le> q \<and> q \<le> totalChunksOf (fsize f) \<and> body = chunkOf f q"
    by (auto simp: acknowledged_def split: option.splits)
  from p have "map_of (parts progress) p \<noteq> None" by (simp add: map_of_None_iff)
  with m[of p] obtain body where "sparts ses p = Some body" by (cases "sparts ses p") auto
  from b[OF this] show "p \<in> {1..totalChunksOf (fsize f)}" by simp
qed

lemma upt_split: "j \<le> n \<Longrightarrow> [1..<Suc n] = [1..<Suc j] @ [Suc j..<Suc n]"
  using upt_add_eq_append[of 1 "Suc j" "n - j"] by simp

lemma upt_split3: "j < n \<Longrightarrow> [1..<Suc n] = [1..<Suc j] @ Suc j # [Suc (Suc j)..<Suc n]"
  using upt_split[of j n] by (simp add: upt_conv_Cons)

lemma filter_missing:
  "j \<le> n \<Longrightarrow> fst ` set al = {1..j}
   \<Longrightarrow> filter (\<lambda>q. map_of al q = None) [1..<Suc n] = [Suc j..<Suc n]"
proof -
  assume j: "j \<le> n" and keys: "fst ` set al = {1..j}"
  have split: "[1..<Suc n] = [1..<Suc j] @ [Suc j..<Suc n]"
    using j by (rule upt_split)
  have none: "\<And>q. map_of al q = None \<longleftrightarrow> q \<notin> {1..j}"
    using keys by (simp add: map_of_None_iff)
  show ?thesis
    unfolding split by (auto simp: none filter_empty_conv filter_id_conv)
qed

lemma requestsSince_append:
  "requests (s3 w') = requests (s3 w) @ new \<Longrightarrow> requestsSince w w' = new"
  by (simp add: requestsSince_def)

text \<open>The \<open>try\<close> block when nothing fails and no other code interferes.\<close>

lemma uploadTry_completes:
  assumes flags: "\<not> isAborted (ctls w r)" "\<not> isPaused (ctls w r)"
    and calm: "calm e"
    and ack: "acknowledged f k (s3 w) progress"
    and ok: "\<forall>p. partOk e p" "completeOk e"
  shows "\<exists>w' progress'. uploadTry e f k fk r progress w = (w', progress', Finished)
           \<and> objects (s3 w') = (objects (s3 w))(k \<mapsto> \<lparr>content = bytes f, modified = clock (s3 w)\<rparr>)
           \<and> loadUploadProgress w' fk = None
           \<and> (\<forall>fk'. fk' \<noteq> fk \<longrightarrow> loadUploadProgress w' fk' = loadUploadProgress w fk')
           \<and> configured w' = configured w
           \<and> (\<exists>new manifest. requests (s3 w') = requests (s3 w) @ new
                 \<and> partsRequested new
                     = filter (\<lambda>q. map_of (parts progress) q = None) [1..<Suc (totalChunksOf (fsize f))]
                 \<and> last new = CompleteMultipartUpload k (uploadId progress) manifest
                 \<and> map snd manifest = [1..<Suc (totalChunksOf (fsize f))])"
proof -
  let ?n = "totalChunksOf (fsize f)"
  let ?ps = "[1..<Suc ?n]"
  have ap: "\<forall>p. atPart e p = []" and ac: "atComplete e = []" using calm by (simp_all add: calm_def)
  have rng: "\<forall>p\<in>set ?ps. 1 \<le> p \<and> p \<le> ?n" by auto
  have rngok: "\<forall>p\<in>set ?ps. 1 \<le> p \<and> p \<le> ?n \<and> partOk e p" using ok(1) by auto
  from uploadParts_finishes[OF flags ap ack rngok, of fk]
  obtain w1 p1 where loop: "uploadParts e f k fk r ?ps progress w = (w1, p1, Finished)" by blast
  note A = uploadParts_acknowledged[OF loop ack rng]
  note C = uploadParts_calm[OF loop flags ap]
  from uploadParts_requests[OF loop distinct_upt] obtain qs where R:
    "requests (s3 w1) = requests (s3 w) @ map (\<lambda>q. UploadPart k q (uploadId progress) (chunkOf f q)) qs"
    "qs = filter (\<lambda>q. map_of (parts progress) q = None) ?ps"
    "fst ` set (parts p1) = fst ` set (parts progress) \<union> set ?ps"
    by blast
  have all: "fst ` set (parts p1) = {1..?n}"
    using R(3) acknowledged_keys[OF ack] by auto
  from complete_all_parts[OF conjunct1[OF A] all]
  obtain s' where comp:
    "completeMultipartUpload True k (uploadId p1) (manifestOf p1) (s3 w1) = (s', Inr ())"
    "objects s' = (objects (s3 w1))(k \<mapsto> \<lparr>content = bytes f, modified = clock (s3 w1)\<rparr>)"
    "requests s' = requests (s3 w1) @ [CompleteMultipartUpload k (uploadId p1) (manifestOf p1)]"
    and man: "map snd (manifestOf p1) = ?ps"
    by blast
  let ?w4 = "clearUploadProgress fk (w1\<lparr>s3 := s'\<rparr>)"
  let ?w' = "?w4\<lparr>activeUploads := (activeUploads ?w4)(fk := None)\<rparr>"
  have res: "uploadTry e f k fk r progress w = (?w', p1, Finished)"
    using loop comp(1) ok(2) ac by (simp add: uploadTry_def Let_def withS3_def)
  have rq: "requests (s3 ?w') = requests (s3 w)
              @ (map (\<lambda>q. UploadPart k q (uploadId progress) (chunkOf f q)) qs
                 @ [CompleteMultipartUpload k (uploadId p1) (manifestOf p1)])"
    using comp(3) R(1) by simp
  let ?new = "map (\<lambda>q. UploadPart k q (uploadId progress) (chunkOf f q)) qs
                 @ [CompleteMultipartUpload k (uploadId p1) (manifestOf p1)]"
  have pr: "partsRequested ?new = qs"
    by (simp only: partsRequested_append partsRequested_map) simp
  have lst: "last ?new = CompleteMultipartUpload k (uploadId progress) (manifestOf p1)"
    using A by simp
  have others: "\<forall>fk'. fk' \<noteq> fk \<longrightarrow> loadUploadProgress ?w' fk' = loadUploadProgress w fk'"
    using C by (simp add: loadUploadProgress_def clearUploadProgress_def delete_conv)
  have mine: "loadUploadProgress ?w' fk = None"
    by (simp add: loadUploadProgress_def clearUploadProgress_def delete_conv)
  have conf: "configured ?w' = configured w" using C by (simp add: clearUploadProgress_def)
  have obj: "objects (s3 ?w') = (objects (s3 w))(k \<mapsto> \<lparr>content = bytes f, modified = clock (s3 w)\<rparr>)"
    using comp(2) A by simp
  have "\<exists>new manifest. requests (s3 ?w') = requests (s3 w) @ new
                 \<and> partsRequested new = filter (\<lambda>q. map_of (parts progress) q = None) ?ps
                 \<and> last new = CompleteMultipartUpload k (uploadId progress) manifest
                 \<and> map snd manifest = ?ps"
    using rq pr R(2) lst man by blast
  with res obj mine others conf show ?thesis by blast
qed

text \<open>The \<open>try\<close> block when the upload of part \<open>j + 1\<close> is the first request to fail.\<close>

lemma uploadTry_fails:
  assumes flags: "\<not> isAborted (ctls w r)" "\<not> isPaused (ctls w r)"
    and calm: "calm e"
    and ack: "acknowledged f k (s3 w) progress"
    and j: "j < totalChunksOf (fsize f)"
    and ok: "\<forall>p. partOk e p = (p \<noteq> Suc j)"
    and missing: "map_of (parts progress) (Suc j) = None"
  shows "\<exists>w' progress'. uploadTry e f k fk r progress w = (w', progress', Threw NetworkFailure)
           \<and> acknowledged f k (s3 w') progress'
           \<and> fst ` set (parts progress') = fst ` set (parts progress) \<union> {1..j}
           \<and> totalSize progress' = totalSize progress \<and> fileName progress' = fileName progress
           \<and> ctls w' = ctls w \<and> configured w' = configured w \<and> nextCtl w' = nextCtl w
           \<and> objects (s3 w') = objects (s3 w)
           \<and> (\<forall>fk'. fk' \<noteq> fk \<longrightarrow> loadUploadProgress w' fk' = loadUploadProgress w fk')
           \<and> (\<exists>new. requests (s3 w') = requests (s3 w) @ new
                 \<and> partsRequested new
                     = filter (\<lambda>q. map_of (parts progress) q = None) [1..<Suc j] @ [Suc j])"
proof -
  let ?n = "totalChunksOf (fsize f)"
  let ?ps1 = "[1..<Suc j]" and ?ps2 = "[Suc (Suc j)..<Suc ?n]"
  have ap: "\<forall>p. atPart e p = []" using calm by (simp add: calm_def)
  have split: "[1..<Suc ?n] = ?ps1 @ Suc j # ?ps2"
    using j by (rule upt_split3)
  have rng: "\<forall>p\<in>set ?ps1. 1 \<le> p \<and> p \<le> ?n" using j by auto
  have rngok: "\<forall>p\<in>set ?ps1. 1 \<le> p \<and> p \<le> ?n \<and> partOk e p" using j ok by auto
  from uploadParts_finishes[OF flags ap ack rngok, of fk]
  obtain w1 p1 where loop: "uploadParts e f k fk r ?ps1 progress w = (w1, p1, Finished)" by blast
  note A = uploadParts_acknowledged[OF loop ack rng]
  note C = uploadParts_calm[OF loop flags ap]
  from uploadParts_requests[OF loop distinct_upt] obtain qs where R:
    "requests (s3 w1) = requests (s3 w) @ map (\<lambda>q. UploadPart k q (uploadId progress) (chunkOf f q)) qs"
    "qs = filter (\<lambda>q. map_of (parts progress) q = None) ?ps1"
    "fst ` set (parts p1) = fst ` set (parts progress) \<union> set ?ps1"
    "\<forall>q. q \<notin> set ?ps1 \<longrightarrow> map_of (parts p1) q = map_of (parts progress) q"
    "uploadId p1 = uploadId progress"
    by blast
  have miss1: "map_of (parts p1) (Suc j) = None" using R(4) missing by simp
  have f1: "\<not> isAborted (ctls w1 r)" "\<not> isPaused (ctls w1 r)" using C flags by simp_all
  have apj: "atPart e (Suc j) = []" using ap by simp
  let ?s' = "logRequest (UploadPart k (Suc j) (uploadId p1) (chunkOf f (Suc j))) (s3 w1)"
  have up: "uploadPart (partOk e (Suc j)) k (Suc j) (uploadId p1) (chunkOf f (Suc j)) (s3 w1)
              = (?s', Inl NetworkFailure)"
    using ok by (simp add: uploadPart_def Let_def)
  have it: "uploadIteration e f k fk r (Suc j) p1 w1 = (w1\<lparr>s3 := ?s'\<rparr>, p1, Threw NetworkFailure)"
    by (simp add: uploadIteration_calm[OF f1 apj] miss1 up)
  have whole: "uploadParts e f k fk r [1..<Suc ?n] progress w = (w1\<lparr>s3 := ?s'\<rparr>, p1, Threw NetworkFailure)"
    unfolding split using loop it by (simp add: uploadParts_append)
  let ?w' = "w1\<lparr>s3 := ?s'\<rparr>"
  have res: "uploadTry e f k fk r progress w = (?w', p1, Threw NetworkFailure)"
    using whole by (simp add: uploadTry_def Let_def)
  have ack': "acknowledged f k (s3 ?w') p1"
    using A by simp
  have rq: "requests (s3 ?w') = requests (s3 w)
              @ (map (\<lambda>q. UploadPart k q (uploadId progress) (chunkOf f q)) (qs @ [Suc j]))"
    using R(1,5) by simp
  have pr: "\<exists>new. requests (s3 ?w') = requests (s3 w) @ new \<and> partsRequested new = qs @ [Suc j]"
    using rq by (intro exI[of _ "map (\<lambda>q. UploadPart k q (uploadId progress) (chunkOf f q)) (qs @ [Suc j])"])
                (simp only: partsRequested_map simp_thms)
  have keys: "fst ` set (parts p1) = fst ` set (parts progress) \<union> {1..j}"
    using R(3) by auto
  have ld: "\<forall>fk'. fk' \<noteq> fk \<longrightarrow> loadUploadProgress ?w' fk' = loadUploadProgress w fk'"
    using C by (simp add: loadUploadProgress_def)
  have fr: "ctls ?w' = ctls w \<and> configured ?w' = configured w \<and> nextCtl ?w' = nextCtl w
            \<and> objects (s3 ?w') = objects (s3 w)"
    using C A by simp
  have fld: "totalSize p1 = totalSize progress \<and> fileName p1 = fileName progress"
    using A by simp
  from pr obtain new where new: "requests (s3 ?w') = requests (s3 w) @ new" "partsRequested new = qs @ [Suc j]"
    by blast
  show ?thesis
    apply (rule exI[of _ ?w'], rule exI[of _ p1])
    using res ack' keys fr fld ld new R(2) by blast
qed


section \<open>Whole invocations of resumableUpload\<close>

lemma calm_quietEnv [simp]: "calm quietEnv" "calm (failAt j)"
  by (simp_all add: calm_def quietEnv_def failAt_def)

lemma quietEnv_ok [simp]:
  "createOk quietEnv" "partOk quietEnv p" "completeOk quietEnv" "atCreate quietEnv = []"
  "createOk (failAt j)" "partOk (failAt j) p = (p \<noteq> j)" "atCreate (failAt j) = []"
  by (simp_all add: quietEnv_def failAt_def)

lemma registerUpload_fields [simp]:
  "s3 (registerUpload fk w) = s3 w"
  "configured (registerUpload fk w) = configured w"
  "uploadStore (registerUpload fk w) = uploadStore w"
  "isAborted (ctls (registerUpload fk w) (nextCtl w)) = False"
  "isPaused (ctls (registerUpload fk w) (nextCtl w)) = False"
  by (simp_all add: registerUpload_def)

lemma load_registerUpload [simp]: "loadUploadProgress (registerUpload fk w) = loadUploadProgress w"
  by (simp add: loadUploadProgress_def fun_eq_iff)

lemma load_s3_update_upload [simp]: "loadUploadProgress (w\<lparr>s3 := s\<rparr>) = loadUploadProgress w"
  by (simp add: loadUploadProgress_def fun_eq_iff)

lemma resumableUpload_resume:
  assumes "configured w" "10485760 \<le> fsize f"
    and "loadUploadProgress w (uploadFileKey k f) = Some p"
    and "totalSize p = fsize f" "fileName p = name f"
  shows "resumableUpload e f k w =
           uploadCatch (uploadFileKey k f) (nextCtl w)
             (uploadTry e f k (uploadFileKey k f) (nextCtl w) p (registerUpload (uploadFileKey k f) w))"
  using assms by (simp add: resumableUpload_def Let_def registerUpload_def)

lemma resumableUpload_fresh:
  assumes "configured w" "10485760 \<le> fsize f"
    and "loadUploadProgress w (uploadFileKey k f) = None"
    and "createOk e" "atCreate e = []"
  shows "resumableUpload e f k w =
           uploadCatch (uploadFileKey k f) (nextCtl w)
             (uploadTry e f k (uploadFileKey k f) (nextCtl w) (freshProgress f k (nextUploadId (s3 w)))
                ((registerUpload (uploadFileKey k f) w)\<lparr>s3 := openSession k (s3 w)\<rparr>))"
  using assms
  by (simp add: resumableUpload_def Let_def registerUpload_def withS3_def createMultipartUpload_def
        freshProgress_def openSession_def)

lemma acknowledged_fresh: "acknowledged f k (openSession k s) (freshProgress f k (nextUploadId s))"
  by (simp add: acknowledged_def openSession_def freshProgress_def)

text \<open>A first invocation in which nothing fails.\<close>

lemma resumableUpload_single_pass:
  assumes conf: "configured w" and big: "10485760 \<le> fsize f"
    and none: "loadUploadProgress w (uploadFileKey k f) = None"
    and calm: "calm e" and ok: "createOk e" "\<forall>p. partOk e p" "completeOk e"
  shows "\<exists>w'. resumableUpload e f k w = (w', Finished)
           \<and> map_option content (objects (s3 w') k) = Some (bytes f)
           \<and> loadUploadProgress w' (uploadFileKey k f) = None
           \<and> (\<forall>fk'. fk' \<noteq> uploadFileKey k f \<longrightarrow> loadUploadProgress w' fk' = loadUploadProgress w fk')
           \<and> (\<exists>new. requests (s3 w') = requests (s3 w) @ CreateMultipartUpload k # new
                 \<and> partsRequested new = [1..<Suc (totalChunksOf (fsize f))])"
proof -
  let ?fk = "uploadFileKey k f" and ?r = "nextCtl w"
  let ?w0 = "(registerUpload ?fk w)\<lparr>s3 := openSession k (s3 w)\<rparr>"
  let ?p0 = "freshProgress f k (nextUploadId (s3 w))"
  have ac: "atCreate e = []" using calm by (simp add: calm_def)
  have flags: "\<not> isAborted (ctls ?w0 ?r)" "\<not> isPaused (ctls ?w0 ?r)" by simp_all
  have ack: "acknowledged f k (s3 ?w0) ?p0" by (simp add: acknowledged_fresh)
  from uploadTry_completes[OF flags calm ack ok(2,3), of ?fk]
  obtain w' p' new where t:
    "uploadTry e f k ?fk ?r ?p0 ?w0 = (w', p', Finished)"
    "objects (s3 w') = (objects (s3 ?w0))(k \<mapsto> \<lparr>content = bytes f, modified = clock (s3 ?w0)\<rparr>)"
    "loadUploadProgress w' ?fk = None"
    "\<forall>fk'. fk' \<noteq> ?fk \<longrightarrow> loadUploadProgress w' fk' = loadUploadProgress ?w0 fk'"
    "requests (s3 w') = requests (s3 ?w0) @ new"
    "partsRequested new = filter (\<lambda>q. map_of (parts ?p0) q = None) [1..<Suc (totalChunksOf (fsize f))]"
    by blast
  have run: "resumableUpload e f k w = (w', Finished)"
    using resumableUpload_fresh[OF conf big none ok(1) ac] t(1) by (simp add: uploadCatch_def)
  have rq: "requests (s3 w') = requests (s3 w) @ CreateMultipartUpload k # new"
    using t(5) by (simp add: openSession_def)
  have pr: "partsRequested new = [1..<Suc (totalChunksOf (fsize f))]"
    using t(6) by (simp add: freshProgress_def)
  have ob: "map_option content (objects (s3 w') k) = Some (bytes f)" using t(2) by simp
  have fr: "\<forall>fk'. fk' \<noteq> ?fk \<longrightarrow> loadUploadProgress w' fk' = loadUploadProgress w fk'"
    using t(4) by simp
  from run ob t(3) fr rq pr show ?thesis by blast
qed

text \<open>A first invocation in which the upload of part \<open>j + 1\<close> fails.\<close>

lemma resumableUpload_interrupted:
  assumes conf: "configured w" and big: "10485760 \<le> fsize f"
    and none: "loadUploadProgress w (uploadFileKey k f) = None"
    and j: "j < totalChunksOf (fsize f)"
  shows "\<exists>w' p. resumableUpload (failAt (Suc j)) f k w = (w', Threw NetworkFailure)
           \<and> loadUploadProgress w' (uploadFileKey k f) = Some p
           \<and> acknowledged f k (s3 w') p \<and> fst ` set (parts p) = {1..j}
           \<and> totalSize p = fsize f \<and> fileName p = name f \<and> configured w'
           \<and> \<not> isAborted (ctls w' (nextCtl w))
           \<and> (\<exists>new. requests (s3 w') = requests (s3 w) @ CreateMultipartUpload k # new
                 \<and> partsRequested new = [1..<Suc (Suc j)])"
proof -
  let ?e = "failAt (Suc j)"
  let ?fk = "uploadFileKey k f" and ?r = "nextCtl w"
  let ?w0 = "(registerUpload ?fk w)\<lparr>s3 := openSession k (s3 w)\<rparr>"
  let ?p0 = "freshProgress f k (nextUploadId (s3 w))"
  have flags: "\<not> isAborted (ctls ?w0 ?r)" "\<not> isPaused (ctls ?w0 ?r)" by simp_all
  have ack: "acknowledged f k (s3 ?w0) ?p0" by (simp add: acknowledged_fresh)
  have ok: "\<forall>p. partOk ?e p = (p \<noteq> Suc j)" by simp
  have miss: "map_of (parts ?p0) (Suc j) = None" by (simp add: freshProgress_def)
  from uploadTry_fails[OF flags calm_quietEnv(2) ack j ok miss, of ?fk]
  obtain w1 p1 new where t:
    "uploadTry ?e f k ?fk ?r ?p0 ?w0 = (w1, p1, Threw NetworkFailure)"
    "acknowledged f k (s3 w1) p1"
    "fst ` set (parts p1) = fst ` set (parts ?p0) \<union> {1..j}"
    "totalSize p1 = totalSize ?p0" "fileName p1 = fileName ?p0"
    "ctls w1 = ctls ?w0" "configured w1 = configured ?w0"
    "requests (s3 w1) = requests (s3 ?w0) @ new"
    "partsRequested new = filter (\<lambda>q. map_of (parts ?p0) q = None) [1..<Suc j] @ [Suc j]"
    by blast
  let ?w' = "(saveUploadProgress ?fk p1 w1)\<lparr>activeUploads := (activeUploads (saveUploadProgress ?fk p1 w1))(?fk := None)\<rparr>"
  have na: "\<not> isAborted (ctls w1 ?r)" using t(6) by simp
  have run: "resumableUpload ?e f k w = (?w', Threw NetworkFailure)"
    using resumableUpload_fresh[OF conf big none, of ?e] t(1) na
    by (simp add: uploadCatch_def)
  have ld: "loadUploadProgress ?w' ?fk = Some p1"
    by (simp add: loadUploadProgress_def saveUploadProgress_def update_conv)
  have rq: "requests (s3 ?w') = requests (s3 w) @ CreateMultipartUpload k # new"
    using t(8) by (simp add: openSession_def)
  have pr: "partsRequested new = [1..<Suc (Suc j)]"
    using t(9) by (simp add: freshProgress_def upt_Suc)
  have keys: "fst ` set (parts p1) = {1..j}" using t(3) by (simp add: freshProgress_def)
  have flds: "totalSize p1 = fsize f \<and> fileName p1 = name f \<and> configured ?w'"
    using t(4,5,7) conf by (simp add: freshProgress_def)
  have ack': "acknowledged f k (s3 ?w') p1" using t(2) by simp
  have na': "\<not> isAborted (ctls ?w' ?r)" using na by simp
  from run ld ack' keys flds na' rq pr show ?thesis by blast
qed

text \<open>An invocation that finds an acknowledged record with the parts \<open>1..j\<close> and in which nothing fails.\<close>

lemma resumableUpload_resumed:
  assumes conf: "configured w" and big: "10485760 \<le> fsize f"
    and stored: "loadUploadProgress w (uploadFileKey k f) = Some p"
    and ack: "acknowledged f k (s3 w) p" and keys: "fst ` set (parts p) = {1..j}"
    and flds: "totalSize p = fsize f" "fileName p = name f"
    and j: "j \<le> totalChunksOf (fsize f)"
  shows "\<exists>w'. resumableUpload quietEnv f k w = (w', Finished)
           \<and> map_option content (objects (s3 w') k) = Some (bytes f)
           \<and> loadUploadProgress w' (uploadFileKey k f) = None
           \<and> (\<exists>new. requests (s3 w') = requests (s3 w) @ new
                 \<and> partsRequested new = [Suc j..<Suc (totalChunksOf (fsize f))])"
proof -
  let ?fk = "uploadFileKey k f" and ?r = "nextCtl w"
  let ?w0 = "registerUpload ?fk w"
  have flags: "\<not> isAborted (ctls ?w0 ?r)" "\<not> isPaused (ctls ?w0 ?r)" by simp_all
  have ack0: "acknowledged f k (s3 ?w0) p" using ack by simp
  have ok: "\<forall>q. partOk quietEnv q" "completeOk quietEnv" by simp_all
  from uploadTry_completes[OF flags calm_quietEnv(1) ack0 ok, of ?fk]
  obtain w' p' new where t:
    "uploadTry quietEnv f k ?fk ?r p ?w0 = (w', p', Finished)"
    "objects (s3 w') = (objects (s3 ?w0))(k \<mapsto> \<lparr>content = bytes f, modified = clock (s3 ?w0)\<rparr>)"
    "loadUploadProgress w' ?fk = None"
    "requests (s3 w') = requests (s3 ?w0) @ new"
    "partsRequested new = filter (\<lambda>q. map_of (parts p) q = None) [1..<Suc (totalChunksOf (fsize f))]"
    by blast
  have run: "resumableUpload quietEnv f k w = (w', Finished)"
    using resumableUpload_resume[OF conf big stored flds] t(1) by (simp add: uploadCatch_def)
  have pr: "partsRequested new = [Suc j..<Suc (totalChunksOf (fsize f))]"
    using t(5) filter_missing[OF j keys] by simp
  have ob: "map_option content (objects (s3 w') k) = Some (bytes f)" using t(2) by simp
  have rq: "requests (s3 w') = requests (s3 w) @ new" using t(4) by simp
  from run ob t(3) rq pr show ?thesis by blast
qed




section \<open>A concrete interrupted upload\<close>

lemma showNat_ex: "showNat 20971520 = ''20971520''" "showNat 17 = ''17''" "showNat 5242880 = ''5242880''"
  by simp_all

lemma bigFile_key: "uploadFileKey ''docs/a.bin'' bigFile = ''docs/a.bin_a.bin_20971520_17''"
  by (simp add: uploadFileKey_def bigFile_def zeroFile_def fsize_def showInt_def)

lemma upt5: "[Suc 0..<5] = [Suc 0, 2, 3, 4]"
  by (simp add: upt_conv_Cons)

lemma chunks4: "totalChunksOf 20971520 = 4"
  by (simp add: totalChunksOf_def CHUNK_SIZE_def)

lemma bigFile_fields:
  "fsize bigFile = 20971520" "name bigFile = ''a.bin''" "lastModified bigFile = 17"
  "bytes bigFile = replicate 20971520 0"
  by (simp_all add: bigFile_def zeroFile_def fsize_def)

lemma interruptedWorld_eval:
  "uploadStore interruptedWorld =
     [(''docs/a.bin_a.bin_20971520_17'',
       \<lparr>uploadId = 0,
        parts = [(1, \<lparr>etag = ''5242880'', psize = 5242880\<rparr>), (2, \<lparr>etag = ''5242880'', psize = 5242880\<rparr>)],
        totalSize = 20971520, uploadedSize = 10485760, fileName = ''a.bin'', key = ''docs/a.bin'',
        cp_lastModified = 17\<rparr>)]"
  by (simp add: interruptedWorld_def resumableUpload_def bigFile_key chunks4 upt5 Let_def
        uploadTry_def uploadCatch_def uploadIteration_def withS3_def uploadPart_def
        createMultipartUpload_def logRequest_def failAt_def quietEnv_def idleWorld_def emptyS3_def
        loadUploadProgress_def saveUploadProgress_def clearUploadProgress_def
        slice_def CHUNK_SIZE_def bigFile_fields)


lemma cancel_eval:
  "snd (resumableUpload pauseThenCancel bigFile ''docs/a.bin'' interruptedWorld) = Threw UploadCancelled
   \<and> loadUploadProgress (fst (resumableUpload pauseThenCancel bigFile ''docs/a.bin'' interruptedWorld))
        ''docs/a.bin_a.bin_20971520_17'' = None
   \<and> partsRequested (requestsSince interruptedWorld
        (fst (resumableUpload pauseThenCancel bigFile ''docs/a.bin'' interruptedWorld))) = [3]"
  by (simp add: interruptedWorld_def resumableUpload_def bigFile_key chunks4 upt5 Let_def
        uploadTry_def uploadCatch_def uploadIteration_def withS3_def uploadPart_def
        createMultipartUpload_def logRequest_def failAt_def quietEnv_def idleWorld_def emptyS3_def
        loadUploadProgress_def saveUploadProgress_def clearUploadProgress_def
        slice_def CHUNK_SIZE_def bigFile_fields pauseThenCancel_def pauseUpload_def cancelUpload_def
        abort_def replaceNum1_def replaceNum2_def stripNumSuffix_def isDigit_def requestsSince_def)


section \<open>Failures inside the try block\<close>

lemma partsRequested_Complete [simp]:
  "partsRequested (xs @ [CompleteMultipartUpload k uid m]) = partsRequested xs"
  by simp

lemma completionsRequested_append [simp]:
  "completionsRequested (xs @ ys) = completionsRequested xs + completionsRequested ys"
  by (induction xs rule: completionsRequested.induct) simp_all

lemma completionsRequested_map [simp]:
  "completionsRequested (map (\<lambda>p. UploadPart k p uid (g p)) qs) = 0"
  by (induction qs) simp_all

lemma complete_cases:
  assumes "completeMultipartUpload ok k uid m s = (s', res)"
  shows "requests s' = requests s @ [CompleteMultipartUpload k uid m]
         \<and> (case res of
              Inl err \<Rightarrow> s' = logRequest (CompleteMultipartUpload k uid m) s
            | Inr u \<Rightarrow> ok)"
  using assms
  by (auto simp: completeMultipartUpload_def Let_def split: if_splits option.splits)

lemma uploadPart_notok:
  "\<not> ok \<Longrightarrow> uploadPart ok k p uid body s = (logRequest (UploadPart k p uid body) s, Inl NetworkFailure)"
  by (simp add: uploadPart_def)

text \<open>A part request that fails ends the iteration, and the loop, with the failure.\<close>

lemma uploadIteration_outcome:
  assumes run: "uploadIteration e f k fk r p progress w = (w', progress', out)"
  shows "\<exists>qs. requests (s3 w') = requests (s3 w) @ map (\<lambda>q. UploadPart k q (uploadId progress) (chunkOf f q)) qs
              \<and> ((\<forall>q\<in>set qs. partOk e q) \<or> out = Threw NetworkFailure)"
proof -
  let ?mk = "\<lambda>q. UploadPart k q (uploadId progress) (chunkOf f q)"
  from uploadIteration_cases[OF run]
  consider (same) "s3 w' = s3 w"
    | (sent) s' res where
        "uploadPart (partOk e p) k p (uploadId progress) (chunkOf f p) (s3 w) = (s', res)"
        "s3 w' = s'"
        "case res of
           Inl err \<Rightarrow> out = Threw err \<and> progress' = progress
         | Inr tag \<Rightarrow> out = Finished
             \<and> progress' = progress
                  \<lparr>parts := AList.update p \<lparr>etag = tag, psize = length (chunkOf f p)\<rparr> (parts progress),
                   uploadedSize := uploadedSize progress + length (chunkOf f p)\<rparr>
             \<and> loadUploadProgress w' fk = Some progress'"
    by blast
  then show ?thesis
  proof cases
    case same
    then have "requests (s3 w') = requests (s3 w) @ map ?mk []" by simp
    then show ?thesis by (intro exI[of _ "[]"]) simp
  next
    case sent
    from uploadPart_cases[OF sent(1)] sent(2)
    have rq: "requests (s3 w') = requests (s3 w) @ map ?mk [p]" by simp
    show ?thesis
    proof (cases "partOk e p")
      case True
      with rq show ?thesis by (intro exI[of _ "[p]"]) simp
    next
      case False
      from uploadPart_notok[OF False] sent(1) have "res = Inl NetworkFailure" by simp
      with sent(3) have "out = Threw NetworkFailure" by simp
      with rq show ?thesis by (intro exI[of _ "[p]"]) simp
    qed
  qed
qed

lemma uploadParts_outcome:
  "uploadParts e f k fk r ps progress w = (w', progress', out)
   \<Longrightarrow> \<exists>qs. requests (s3 w') = requests (s3 w) @ map (\<lambda>q. UploadPart k q (uploadId progress) (chunkOf f q)) qs
          \<and> ((\<forall>q\<in>set qs. partOk e q) \<or> out = Threw NetworkFailure)"
proof (induction ps arbitrary: progress w)
  case Nil
  then show ?case by (intro exI[of _ "[]"]) simp
next
  case (Cons p ps)
  let ?mk = "\<lambda>q. UploadPart k q (uploadId progress) (chunkOf f q)"
  obtain w1 p1 o1 where it: "uploadIteration e f k fk r p progress w = (w1, p1, o1)"
    by (cases "uploadIteration e f k fk r p progress w") auto
  from uploadIteration_outcome[OF it] obtain qs1 where q1:
    "requests (s3 w1) = requests (s3 w) @ map ?mk qs1"
    "(\<forall>q\<in>set qs1. partOk e q) \<or> o1 = Threw NetworkFailure"
    by blast
  from uploadIteration_requests[OF it] have uid: "uploadId p1 = uploadId progress" by blast
  show ?case
  proof (cases "o1 = Finished")
    case True
    with Cons.prems it have rest: "uploadParts e f k fk r ps p1 w1 = (w', progress', out)" by simp
    from Cons.IH[OF rest] uid obtain qs2 where q2:
      "requests (s3 w') = requests (s3 w1) @ map ?mk qs2"
      "(\<forall>q\<in>set qs2. partOk e q) \<or> out = Threw NetworkFailure"
      by auto
    from q1(2) True have ok1: "\<forall>q\<in>set qs1. partOk e q" by simp
    have "requests (s3 w') = requests (s3 w) @ map ?mk (qs1 @ qs2)" using q1(1) q2(1) by simp
    moreover have "(\<forall>q\<in>set (qs1 @ qs2). partOk e q) \<or> out = Threw NetworkFailure"
      using ok1 q2(2) by auto
    ultimately show ?thesis by blast
  next
    case False
    with Cons.prems it have "w' = w1" "out = o1" by (cases o1; simp)+
    with q1 show ?thesis by blast
  qed
qed

text \<open>The \<open>try\<close> block in any environment.\<close>

lemma uploadTry_any:
  assumes run: "uploadTry e f k fk r progress w = (w', progress', out)"
    and ack: "acknowledged f k (s3 w) progress"
  shows "(out \<noteq> Finished \<longrightarrow> acknowledged f k (s3 w') progress')
       \<and> (\<exists>new. requests (s3 w') = requests (s3 w) @ new
              \<and> distinct (partsRequested new) \<and> completionsRequested new \<le> 1
              \<and> (out = Finished \<longrightarrow>
                    partsRequested new
                      = filter (\<lambda>q. map_of (parts progress) q = None) [1..<Suc (totalChunksOf (fsize f))])
              \<and> ((\<exists>q\<in>set (partsRequested new). \<not> partOk e q)
                    \<or> (completionsRequested new = 1 \<and> \<not> completeOk e)
                  \<longrightarrow> out = Threw NetworkFailure))"
proof -
  let ?ps = "[1..<Suc (totalChunksOf (fsize f))]"
  let ?mk = "\<lambda>q. UploadPart k q (uploadId progress) (chunkOf f q)"
  obtain w1 p1 o1 where loop: "uploadParts e f k fk r ?ps progress w = (w1, p1, o1)"
    by (cases "uploadParts e f k fk r ?ps progress w") auto
  have rng: "\<forall>p\<in>set ?ps. 1 \<le> p \<and> p \<le> totalChunksOf (fsize f)" by auto
  note A = uploadParts_acknowledged[OF loop ack rng]
  from uploadParts_requests[OF loop distinct_upt] obtain qs where R:
    "requests (s3 w1) = requests (s3 w) @ map ?mk qs" "distinct qs"
    "o1 = Finished \<longrightarrow> qs = filter (\<lambda>q. map_of (parts progress) q = None) ?ps"
    by blast
  from uploadParts_outcome[OF loop] obtain qs' where O':
    "requests (s3 w1) = requests (s3 w) @ map ?mk qs'"
    "(\<forall>q\<in>set qs'. partOk e q) \<or> o1 = Threw NetworkFailure"
    by blast
  from R(1) O'(1) have "partsRequested (map ?mk qs') = partsRequested (map ?mk qs)" by simp
  then have "qs' = qs" by simp
  with O'(2) have O: "(\<forall>q\<in>set qs. partOk e q) \<or> o1 = Threw NetworkFailure" by simp
  show ?thesis
  proof (cases "o1 = Finished")
    case False
    with run loop have e: "w' = w1" "progress' = p1" "out = o1"
      by (cases o1; simp add: uploadTry_def Let_def)+
    have "requests (s3 w') = requests (s3 w) @ map ?mk qs \<and> distinct (partsRequested (map ?mk qs))
          \<and> completionsRequested (map ?mk qs) \<le> 1
          \<and> (out = Finished \<longrightarrow> partsRequested (map ?mk qs) = filter (\<lambda>q. map_of (parts progress) q = None) ?ps)
          \<and> ((\<exists>q\<in>set (partsRequested (map ?mk qs)). \<not> partOk e q)
                \<or> (completionsRequested (map ?mk qs) = 1 \<and> \<not> completeOk e)
              \<longrightarrow> out = Threw NetworkFailure)"
      using R e False O by auto
    then have "\<exists>new. requests (s3 w') = requests (s3 w) @ new
              \<and> distinct (partsRequested new) \<and> completionsRequested new \<le> 1
              \<and> (out = Finished \<longrightarrow> partsRequested new = filter (\<lambda>q. map_of (parts progress) q = None) ?ps)
              \<and> ((\<exists>q\<in>set (partsRequested new). \<not> partOk e q)
                    \<or> (completionsRequested new = 1 \<and> \<not> completeOk e)
                  \<longrightarrow> out = Threw NetworkFailure)"
      by (rule exI)
    with e False A show ?thesis by simp
  next
    case True
    obtain s' res where comp:
      "completeMultipartUpload (completeOk e) k (uploadId p1) (manifestOf p1) (s3 w1) = (s', res)"
      by (cases "completeMultipartUpload (completeOk e) k (uploadId p1) (manifestOf p1) (s3 w1)")
    note cc = complete_cases[OF comp]
    let ?new = "map ?mk qs @ [CompleteMultipartUpload k (uploadId p1) (manifestOf p1)]"
    have oks: "\<forall>q\<in>set qs. partOk e q" using O True by simp
    have s3w': "s3 w' = s'" and pw: "progress' = p1"
      and out: "out = (case res of Inl err \<Rightarrow> Threw err | Inr u \<Rightarrow> Finished)"
      using run loop True comp
      by (auto simp: uploadTry_def Let_def withS3_def clearUploadProgress_def split: sum.splits)
    have rq: "requests (s3 w') = requests (s3 w) @ ?new" using cc R(1) s3w' by simp
    have pr: "partsRequested ?new = qs" by simp
    have cr: "completionsRequested ?new = 1" by simp
    have fl: "\<not> completeOk e \<longrightarrow> out = Threw NetworkFailure"
      using comp out by (auto simp: completeMultipartUpload_def Let_def)
    have fin: "out = Finished \<longrightarrow> qs = filter (\<lambda>q. map_of (parts progress) q = None) ?ps"
      using R(3) True by simp
    have B: "requests (s3 w') = requests (s3 w) @ ?new
              \<and> distinct (partsRequested ?new) \<and> completionsRequested ?new \<le> 1
              \<and> (out = Finished \<longrightarrow> partsRequested ?new = filter (\<lambda>q. map_of (parts progress) q = None) ?ps)
              \<and> ((\<exists>q\<in>set (partsRequested ?new). \<not> partOk e q)
                    \<or> (completionsRequested ?new = 1 \<and> \<not> completeOk e)
                  \<longrightarrow> out = Threw NetworkFailure)"
      unfolding pr cr using rq R(2) fin fl oks by auto
    have B': "\<exists>new. requests (s3 w') = requests (s3 w) @ new
              \<and> distinct (partsRequested new) \<and> completionsRequested new \<le> 1
              \<and> (out = Finished \<longrightarrow> partsRequested new = filter (\<lambda>q. map_of (parts progress) q = None) ?ps)
              \<and> ((\<exists>q\<in>set (partsRequested new). \<not> partOk e q)
                    \<or> (completionsRequested new = 1 \<and> \<not> completeOk e)
                  \<longrightarrow> out = Threw NetworkFailure)"
      using B by (rule exI)
    have A': "out \<noteq> Finished \<longrightarrow> acknowledged f k (s3 w') progress'"
    proof
      assume "out \<noteq> Finished"
      with out obtain err where "res = Inl err" by (cases res) auto
      with cc s3w' have "s3 w' = logRequest (CompleteMultipartUpload k (uploadId p1) (manifestOf p1)) (s3 w1)"
        by simp
      then show "acknowledged f k (s3 w') progress'" using A pw by simp
    qed
    from A' B' show ?thesis by (rule conjI)
  qed
qed

lemma uploadCatch_cases:
  assumes "uploadCatch fk r (w1, p1, out) = (w', out')"
  shows "out' = out \<and> s3 w' = s3 w1 \<and> ctls w' = ctls w1
       \<and> ((\<exists>err. out = Threw err) \<and> \<not> isAborted (ctls w1 r) \<longrightarrow> loadUploadProgress w' fk = Some p1)"
  using assms
  by (cases out) (auto simp: uploadCatch_def Let_def loadUploadProgress_def saveUploadProgress_def update_conv
                      split: if_splits)

lemma resumableUpload_created:
  assumes "configured w" "10485760 \<le> fsize f"
    and "case loadUploadProgress w (uploadFileKey k f) of
           Some p \<Rightarrow> \<not> (totalSize p = fsize f \<and> fileName p = name f) | None \<Rightarrow> True"
    and "createOk e"
  shows "\<exists>w0. resumableUpload e f k w =
           uploadCatch (uploadFileKey k f) (nextCtl w)
             (uploadTry e f k (uploadFileKey k f) (nextCtl w) (freshProgress f k (nextUploadId (s3 w))) w0)
         \<and> s3 w0 = openSession k (s3 w)"
proof (cases "loadUploadProgress w (uploadFileKey k f)")
  case None
  let ?w0 = "fold applyCall (atCreate e) ((registerUpload (uploadFileKey k f) w)\<lparr>s3 := openSession k (s3 w)\<rparr>)"
  have "resumableUpload e f k w =
           uploadCatch (uploadFileKey k f) (nextCtl w)
             (uploadTry e f k (uploadFileKey k f) (nextCtl w) (freshProgress f k (nextUploadId (s3 w))) ?w0)"
    using assms None
    by (simp add: resumableUpload_def Let_def registerUpload_def withS3_def createMultipartUpload_def
          freshProgress_def openSession_def)
  then show ?thesis by (intro exI[of _ ?w0]) simp
next
  case (Some p)
  let ?w0 = "fold applyCall (atCreate e)
               ((clearUploadProgress (uploadFileKey k f) (registerUpload (uploadFileKey k f) w))
                  \<lparr>s3 := openSession k (s3 w)\<rparr>)"
  have "resumableUpload e f k w =
           uploadCatch (uploadFileKey k f) (nextCtl w)
             (uploadTry e f k (uploadFileKey k f) (nextCtl w) (freshProgress f k (nextUploadId (s3 w))) ?w0)"
    using assms Some
    by (auto simp: resumableUpload_def Let_def registerUpload_def withS3_def createMultipartUpload_def
          freshProgress_def openSession_def clearUploadProgress_def)
  then show ?thesis by (intro exI[of _ ?w0]) simp
qed

lemma resumableUpload_enters:
  assumes conf: "configured w" and big: "10485760 \<le> fsize f" and ent: "entersTry e f k w"
  shows "\<exists>p0 w0 pre. resumableUpload e f k w =
             uploadCatch (uploadFileKey k f) (nextCtl w)
               (uploadTry e f k (uploadFileKey k f) (nextCtl w) p0 w0)
           \<and> acknowledged f k (s3 w0) p0
           \<and> requests (s3 w0) = requests (s3 w) @ pre
           \<and> partsRequested pre = [] \<and> completionsRequested pre = 0"
proof (cases "case loadUploadProgress w (uploadFileKey k f) of
                Some p \<Rightarrow> totalSize p = fsize f \<and> fileName p = name f | None \<Rightarrow> False")
  case True
  then obtain p where p: "loadUploadProgress w (uploadFileKey k f) = Some p"
    "totalSize p = fsize f" "fileName p = name f"
    by (auto split: option.splits)
  with ent have ack: "acknowledged f k (s3 w) p" by (simp add: entersTry_def)
  from resumableUpload_resume[OF conf big p] ack show ?thesis
    by (intro exI[of _ p] exI[of _ "registerUpload (uploadFileKey k f) w"] exI[of _ "[]"]) simp
next
  case False
  then have mis: "case loadUploadProgress w (uploadFileKey k f) of
           Some p \<Rightarrow> \<not> (totalSize p = fsize f \<and> fileName p = name f) | None \<Rightarrow> True"
    by (auto split: option.splits)
  from False ent have cok: "createOk e" by (auto simp: entersTry_def split: option.splits if_splits)
  from resumableUpload_created[OF conf big mis cok] obtain w0 where w0:
    "resumableUpload e f k w =
           uploadCatch (uploadFileKey k f) (nextCtl w)
             (uploadTry e f k (uploadFileKey k f) (nextCtl w) (freshProgress f k (nextUploadId (s3 w))) w0)"
    "s3 w0 = openSession k (s3 w)"
    by blast
  have ack: "acknowledged f k (s3 w0) (freshProgress f k (nextUploadId (s3 w)))"
    by (simp add: w0(2) acknowledged_fresh)
  have rq: "requests (s3 w0) = requests (s3 w) @ [CreateMultipartUpload k]"
    by (simp add: w0(2) openSession_def)
  from w0(1) ack rq show ?thesis
    by (intro exI[of _ "freshProgress f k (nextUploadId (s3 w))"] exI[of _ w0]
              exI[of _ "[CreateMultipartUpload k]"]) simp
qed

text \<open>
  Claim C8.  Take an invocation that gets as far as the \<open>try\<close> block.  Whatever the
  network and other code do: it sends a part request for every part number at most
  once and at most one completion request (no retry); when a part request or the
  completion request fails, the invocation raises that failure; and when the
  invocation raises an error, then either the upload has been cancelled, or the record
  persisted under the file's key is in step with the store: it holds exactly the parts
  the store has acknowledged for the session, each with its tag and length.
\<close>

theorem upload_failure_persists:
  assumes "configured w" and "10485760 \<le> fsize f" and "entersTry e f k w"
  shows "(\<exists>new. requests (s3 (fst (resumableUpload e f k w))) = requests (s3 w) @ new
            \<and> distinct (partsRequested new) \<and> completionsRequested new \<le> 1
            \<and> ((\<exists>q\<in>set (partsRequested new). \<not> partOk e q)
                  \<or> (completionsRequested new = 1 \<and> \<not> completeOk e)
                \<longrightarrow> snd (resumableUpload e f k w) = Threw NetworkFailure))
       \<and> ((\<exists>err. snd (resumableUpload e f k w) = Threw err) \<longrightarrow>
             isAborted (ctls (fst (resumableUpload e f k w)) (nextCtl w))
             \<or> (\<exists>p. loadUploadProgress (fst (resumableUpload e f k w)) (uploadFileKey k f) = Some p
                    \<and> acknowledged f k (s3 (fst (resumableUpload e f k w))) p))"
proof -
  let ?fk = "uploadFileKey k f" and ?r = "nextCtl w"
  from resumableUpload_enters[OF assms] obtain p0 w0 pre where en:
    "resumableUpload e f k w = uploadCatch ?fk ?r (uploadTry e f k ?fk ?r p0 w0)"
    "acknowledged f k (s3 w0) p0" "requests (s3 w0) = requests (s3 w) @ pre"
    "partsRequested pre = []" "completionsRequested pre = 0"
    by blast
  obtain w1 p1 out where tr: "uploadTry e f k ?fk ?r p0 w0 = (w1, p1, out)"
    by (cases "uploadTry e f k ?fk ?r p0 w0") auto
  obtain w' out' where ca: "uploadCatch ?fk ?r (w1, p1, out) = (w', out')"
    by (cases "uploadCatch ?fk ?r (w1, p1, out)")
  have res: "resumableUpload e f k w = (w', out')" using en(1) tr ca by simp
  note C = uploadCatch_cases[OF ca]
  from uploadTry_any[OF tr en(2)] obtain new where T:
    "out \<noteq> Finished \<longrightarrow> acknowledged f k (s3 w1) p1"
    "requests (s3 w1) = requests (s3 w0) @ new" "distinct (partsRequested new)"
    "completionsRequested new \<le> 1"
    "(\<exists>q\<in>set (partsRequested new). \<not> partOk e q)
       \<or> (completionsRequested new = 1 \<and> \<not> completeOk e) \<longrightarrow> out = Threw NetworkFailure"
    by blast
  have rq: "requests (s3 w') = requests (s3 w) @ (pre @ new)" using C T(2) en(3) by simp
  have d: "distinct (partsRequested (pre @ new))" using T(3) en(4) by simp
  have c: "completionsRequested (pre @ new) \<le> 1" using T(4) en(5) by simp
  have fl: "(\<exists>q\<in>set (partsRequested (pre @ new)). \<not> partOk e q)
       \<or> (completionsRequested (pre @ new) = 1 \<and> \<not> completeOk e) \<longrightarrow> out' = Threw NetworkFailure"
    using T(5) C en(4,5) by simp
  have first: "\<exists>new. requests (s3 w') = requests (s3 w) @ new
            \<and> distinct (partsRequested new) \<and> completionsRequested new \<le> 1
            \<and> ((\<exists>q\<in>set (partsRequested new). \<not> partOk e q)
                  \<or> (completionsRequested new = 1 \<and> \<not> completeOk e)
                \<longrightarrow> out' = Threw NetworkFailure)"
    using rq d c fl by blast
  have second: "(\<exists>err. out' = Threw err) \<longrightarrow>
             isAborted (ctls w' ?r) \<or> (\<exists>p. loadUploadProgress w' ?fk = Some p \<and> acknowledged f k (s3 w') p)"
  proof
    assume "\<exists>err. out' = Threw err"
    then obtain err where err: "out = Threw err" using C by auto
    show "isAborted (ctls w' ?r) \<or> (\<exists>p. loadUploadProgress w' ?fk = Some p \<and> acknowledged f k (s3 w') p)"
    proof (cases "isAborted (ctls w1 ?r)")
      case True
      with C show ?thesis by simp
    next
      case False
      with C err have "loadUploadProgress w' ?fk = Some p1" by blast
      moreover have "acknowledged f k (s3 w') p1" using T(1) err C by simp
      ultimately show ?thesis by blast
    qed
  qed
  from first second show ?thesis by (simp add: res)
qed

theorem upload_failure_persists_witness:
  "configured idleWorld \<and> 10485760 \<le> fsize bigFile
   \<and> entersTry (failAt 3) bigFile ''docs/a.bin'' idleWorld
   \<and> snd (resumableUpload (failAt 3) bigFile ''docs/a.bin'' idleWorld) = Threw NetworkFailure
   \<and> \<not> isAborted (ctls interruptedWorld (nextCtl idleWorld))
   \<and> (\<exists>p. loadUploadProgress interruptedWorld (uploadFileKey ''docs/a.bin'' bigFile) = Some p
          \<and> acknowledged bigFile ''docs/a.bin'' (s3 interruptedWorld) p)"
proof -
  have h: "configured idleWorld" "10485760 \<le> fsize bigFile"
    "entersTry (failAt 3) bigFile ''docs/a.bin'' idleWorld"
    by (simp_all add: idleWorld_def bigFile_fields entersTry_def loadUploadProgress_def)
  have none: "loadUploadProgress idleWorld (uploadFileKey ''docs/a.bin'' bigFile) = None"
    by (simp add: idleWorld_def loadUploadProgress_def)
  have j: "2 < totalChunksOf (fsize bigFile)" by (simp add: bigFile_fields chunks4)
  from resumableUpload_interrupted[OF h(1) h(2) none j]
  have run: "snd (resumableUpload (failAt 3) bigFile ''docs/a.bin'' idleWorld) = Threw NetworkFailure"
    and fl: "\<not> isAborted (ctls interruptedWorld (nextCtl idleWorld))"
    by (auto simp: interruptedWorld_def numeral_3_eq_3)
  from upload_failure_persists[OF h] run fl h show ?thesis
    by (simp add: interruptedWorld_def)
qed

section \<open>Cancellation\<close>

lemma cancelUpload_active:
  assumes "activeUploads w fileKey = Some r"
  shows "isAborted (ctls (cancelUpload fileKey w) r)"
    and "activeUploads (cancelUpload fileKey w) fileKey = None"
    and "s3 (cancelUpload fileKey w) = s3 w"
  using assms by (simp_all add: cancelUpload_def abort_def clearUploadProgress_def)

lemma cancelUpload_clears: "loadUploadProgress (cancelUpload fileKey w) fileKey = None"
  by (simp add: loadUploadProgress_def cancelUpload_store delete_conv)

lemma activeUploads_idem: "activeUploads w fk = None \<Longrightarrow> w\<lparr>activeUploads := (activeUploads w)(fk := None)\<rparr> = w"
  by (cases w) (simp add: fun_upd_idem)

lemma cancelUpload_flags:
  "activeUploads w fileKey = Some r \<Longrightarrow> isPaused (ctls (cancelUpload fileKey w) r) = isPaused (ctls w r)"
  by (simp add: cancelUpload_def abort_def clearUploadProgress_def)

lemma pauseWait_cancelled:
  assumes "isAborted (ctls w r)"
  shows "pauseWait r css w = (w, True)"
  using assms by (cases css) simp_all


lemma interruptedWorld_load:
  "loadUploadProgress interruptedWorld ''docs/a.bin_a.bin_20971520_17'' =
     Some \<lparr>uploadId = 0,
        parts = [(1, \<lparr>etag = ''5242880'', psize = 5242880\<rparr>), (2, \<lparr>etag = ''5242880'', psize = 5242880\<rparr>)],
        totalSize = 20971520, uploadedSize = 10485760, fileName = ''a.bin'', key = ''docs/a.bin'',
        cp_lastModified = 17\<rparr>"
  by (simp add: loadUploadProgress_def interruptedWorld_eval)



end
